theory Spec2Isabelle
  imports Main "HOL-Library.Multiset"
begin

section \<open>Configuration and state of the match-3 engine (script.js)\<close>

text \<open>
  The engine of the game is modelled: match detection, swapping, the cascade (removal,
  gravity, refill), the seeding sweep, the constrained random draw and the end conditions.
  What the source does to the page (creating and animating elements, the HUD, click and
  touch handling) is left out.
\<close>

text \<open>
  The constants of the CONFIG block. Tile types are the numbers \<open>0..TYPES-1\<close>; a tile whose
  \<open>type\<close> field is \<open>null\<close> (a slot emptied in the middle of a cascade) is \<open>None\<close>.
\<close>

definition COLS :: nat where "COLS = 8"
definition ROWS :: nat where "ROWS = 8"
definition TYPES :: nat where "TYPES = 6"
definition STARTING_MOVES :: int where "STARTING_MOVES = 30"
definition MATCH_MIN :: nat where "MATCH_MIN = 3"

type_synonym ttype = "nat option"
type_synonym grid = "ttype list list"
type_synonym point = "nat \<times> nat"
type_synonym run = "point list"

text \<open>
  \<open>Math.random\<close> is a stream \<open>rnd\<close> of raw draws read at position \<open>rpos\<close>. The source's
  \<open>rand(n) = Math.floor(Math.random()*n)\<close> turns a draw from \<open>[0,1)\<close> into one of the numbers
  \<open>0..n-1\<close>; the model reduces the raw draw modulo \<open>n\<close>, which yields exactly these numbers.
\<close>

record rng =
  rnd :: "nat \<Rightarrow> nat"
  rpos :: nat

definition rand :: "nat \<Rightarrow> rng \<Rightarrow> nat \<times> rng" where
  "rand n g = (rnd g (rpos g) mod n, g\<lparr>rpos := rpos g + 1\<rparr>)"

text \<open>
  The module-level variables. \<open>grid\<close> holds the \<open>type\<close> field of the tile object of every slot,
  \<open>grid ! r ! c\<close> for \<open>grid[r][c].type\<close>; the DOM element of a tile only mirrors that field
  (class name and data attribute) and is left out, as are the animation delays. \<open>overlay\<close> is
  the end-of-game overlay: \<open>None\<close> while it is hidden, \<open>Some win\<close> once
  \<open>showOverlay(win, ...)\<close> has shown it.
\<close>

record state =
  grid :: grid
  score :: int
  moves :: int
  selected :: "point option"
  processing :: bool
  overlay :: "bool option"
  random :: rng

datatype error = TypeError

text \<open>
  \<open>init\<close> creates the grid as \<open>ROWS\<close> arrays of \<open>COLS\<close> slots and nothing changes that shape
  afterwards. Reading \<open>grid[r][c]\<close> outside the arrays gives \<open>undefined\<close>, and the next property
  access on it throws a TypeError; \<open>defined\<close> says that a coordinate is inside.
\<close>

definition wf_grid :: "grid \<Rightarrow> bool" where
  "wf_grid g \<longleftrightarrow> length g = ROWS \<and> (\<forall>row \<in> set g. length row = COLS)"

definition defined :: "grid \<Rightarrow> point \<Rightarrow> bool" where
  "defined g p \<longleftrightarrow> fst p < length g \<and> snd p < length (g ! fst p)"

text \<open>
  \<open>tget\<close> and \<open>tset\<close> read and write the type at a coordinate. They are only applied inside the
  grid: the loops of the source run over the rows \<open>0..ROWS-1\<close> and the columns \<open>0..COLS-1\<close> of a
  grid of the regular shape, and where a coordinate comes from the caller (\<open>attemptSwap\<close>, the
  initial matches of \<open>resolveMatches\<close>) the model tests \<open>defined\<close> first and returns the
  TypeError.
\<close>

definition tget :: "grid \<Rightarrow> point \<Rightarrow> ttype" where
  "tget g p = g ! fst p ! snd p"

definition tset :: "grid \<Rightarrow> point \<Rightarrow> ttype \<Rightarrow> grid" where
  "tset g p t = g[fst p := (g ! fst p)[snd p := t]]"


definition inBounds :: "nat \<Rightarrow> nat \<Rightarrow> bool" where
  "inBounds r c \<longleftrightarrow> r < ROWS \<and> c < COLS"

definition isAdjacent :: "nat \<Rightarrow> nat \<Rightarrow> nat \<Rightarrow> nat \<Rightarrow> bool" where
  "isAdjacent r1 c1 r2 c2 \<longleftrightarrow> \<bar>int r1 - int r2\<bar> + \<bar>int c1 - int c2\<bar> = 1"

subsection \<open>End of the game\<close>

datatype status = Playing | Won | Lost

definition status :: "state \<Rightarrow> status" where
  "status st = (case overlay st of None \<Rightarrow> Playing | Some win \<Rightarrow> (if win then Won else Lost))"

definition showOverlay :: "bool \<Rightarrow> state \<Rightarrow> state" where
  "showOverlay win st = st\<lparr>overlay := Some win\<rparr>"

definition checkEndConditions :: "state \<Rightarrow> state" where
  "checkEndConditions st =
     (if score st \<ge> 2000 then showOverlay True st
      else if moves st \<le> 0 then showOverlay False st
      else st)"

definition deselect :: "state \<Rightarrow> state" where
  "deselect st = st\<lparr>selected := None\<rparr>"

subsection \<open>Match detection\<close>

text \<open>
  \<open>findAllMatches\<close>: the two nested loops. The inner loop runs \<open>c\<close> (or \<open>r\<close>) from 1 to
  \<open>COLS\<close> (\<open>ROWS\<close>) inclusive and carries the current run and the list of matches; \<open>hstep\<close> and
  \<open>vstep\<close> are its body. A run is never empty (it starts with one point and is only extended
  or replaced by a one-point run), so \<open>run[0]\<close> is \<open>hd run\<close>.
\<close>

definition hstep :: "grid \<Rightarrow> nat \<Rightarrow> run \<times> run list \<Rightarrow> nat \<Rightarrow> run \<times> run list" where
  "hstep g r = (\<lambda>(run, matches) c.
     if c < COLS \<and> g ! r ! c = g ! r ! snd (hd run) then (run @ [(r, c)], matches)
     else ([(r, c)], if length run \<ge> MATCH_MIN then matches @ [run] else matches))"

definition vstep :: "grid \<Rightarrow> nat \<Rightarrow> run \<times> run list \<Rightarrow> nat \<Rightarrow> run \<times> run list" where
  "vstep g c = (\<lambda>(run, matches) r.
     if r < ROWS \<and> g ! r ! c = g ! fst (hd run) ! c then (run @ [(r, c)], matches)
     else ([(r, c)], if length run \<ge> MATCH_MIN then matches @ [run] else matches))"

definition hscan :: "grid \<Rightarrow> run list \<Rightarrow> nat \<Rightarrow> run list" where
  "hscan g matches r = snd (foldl (hstep g r) ([(r, 0)], matches) [1..<COLS + 1])"

definition vscan :: "grid \<Rightarrow> run list \<Rightarrow> nat \<Rightarrow> run list" where
  "vscan g matches c = snd (foldl (vstep g c) ([(0, c)], matches) [1..<ROWS + 1])"

definition findAllMatches :: "grid \<Rightarrow> run list" where
  "findAllMatches g = foldl (vscan g) (foldl (hscan g) [] [0..<ROWS]) [0..<COLS]"

subsection \<open>Swapping\<close>

text \<open>
  \<open>swapData(a,b)\<close> exchanges the \<open>type\<close> fields of two tile objects, given here by their
  coordinates: both fields are read first, then \<open>a\<close> is written, then \<open>b\<close>.
\<close>

definition swapData :: "point \<Rightarrow> point \<Rightarrow> grid \<Rightarrow> grid" where
  "swapData a b g = (let ta = tget g a; tb = tget g b in tset (tset g a tb) b ta)"

subsection \<open>Gravity and refill\<close>

text \<open>
  \<open>dropTiles\<close>: for every column, \<open>r\<close> runs from \<open>ROWS-1\<close> down to 0 with the write index
  \<open>write\<close>, which starts at \<open>ROWS-1\<close> and is decremented after every non-null tile (it is an
  integer: after the last row it may reach \<open>-1\<close>).
\<close>

definition drop_step :: "nat \<Rightarrow> grid \<times> int \<Rightarrow> nat \<Rightarrow> grid \<times> int" where
  "drop_step c = (\<lambda>(g, write) r.
     if g ! r ! c \<noteq> None then
       (if int r \<noteq> write
        then (tset (tset g (nat write, c) (g ! r ! c)) (r, c) None, write - 1)
        else (g, write - 1))
     else (g, write))"

definition drop_col :: "grid \<Rightarrow> nat \<Rightarrow> grid" where
  "drop_col g c = fst (foldl (drop_step c) (g, int ROWS - 1) (rev [0..<ROWS]))"

definition dropTiles :: "grid \<Rightarrow> grid" where
  "dropTiles g = foldl drop_col g [0..<COLS]"

text \<open>
  \<open>refillTiles\<close>: column by column (\<open>refill_col\<close> is the inner loop over the rows), top to
  bottom, every null tile gets \<open>rand(TYPES)\<close>.
\<close>

definition refill_step :: "nat \<Rightarrow> state \<Rightarrow> nat \<Rightarrow> state" where
  "refill_step c st r =
     (if grid st ! r ! c = None
      then (let (t, rg) = rand TYPES (random st)
            in st\<lparr>grid := tset (grid st) (r, c) (Some t), random := rg\<rparr>)
      else st)"

definition refill_col :: "state \<Rightarrow> nat \<Rightarrow> state" where
  "refill_col st c = foldl (refill_step c) st [0..<ROWS]"

definition refillTiles :: "state \<Rightarrow> state" where
  "refillTiles st = foldl refill_col st [0..<COLS]"

subsection \<open>Cascade resolution\<close>

text \<open>
  The removal set is a JavaScript \<open>Set\<close> of the keys \<open>"r,c"\<close>: adding a key that is already
  there changes nothing, and iteration follows insertion order. It is the list of its
  elements in that order.
\<close>

definition set_add :: "point list \<Rightarrow> point \<Rightarrow> point list" where
  "set_add s p = (if p \<in> set s then s else s @ [p])"

definition removeSet :: "run list \<Rightarrow> point list" where
  "removeSet matches = foldl (\<lambda>s run. foldl set_add s run) [] matches"

definition remove_tiles :: "point list \<Rightarrow> grid \<Rightarrow> grid" where
  "remove_tiles ps g = foldl (\<lambda>g p. tset g p None) g ps"

text \<open>
  One iteration of the \<open>while\<close> loop of \<open>resolveMatches\<close>. The first loop over the removal set
  reads \<open>grid[r][c].el\<close> for every key, so a coordinate outside the grid throws before anything
  is changed. Then the tiles are set to null and counted, the score grows by ten times the
  size of the set, the tiles drop, the holes are refilled and the matches are recomputed.
\<close>

definition resolve_step :: "state \<Rightarrow> run list \<Rightarrow> nat \<Rightarrow> error + (state \<times> run list \<times> nat)" where
  "resolve_step st matches totalRemoved =
     (let rs = removeSet matches in
      if \<exists>p \<in> set rs. \<not> defined (grid st) p then Inl TypeError
      else
        let st1 = st\<lparr>grid := remove_tiles rs (grid st)\<rparr>;
            totalRemoved' = totalRemoved + length rs;
            st2 = st1\<lparr>score := score st1 + int (length rs) * 10\<rparr>;
            st3 = st2\<lparr>grid := dropTiles (grid st2)\<rparr>;
            st4 = refillTiles st3
        in Inr (st4, findAllMatches (grid st4), totalRemoved'))"

text \<open>
  The loop itself may go on forever (every refill can bring new matches), so it is a partial
  function: \<open>None\<close> is a run that never returns.
\<close>

partial_function (option) resolve_loop :: "state \<Rightarrow> run list \<Rightarrow> nat \<Rightarrow> (error + nat \<times> state) option" where
  "resolve_loop st matches totalRemoved =
     (if matches = [] then Some (Inr (totalRemoved, st))
      else (case resolve_step st matches totalRemoved of
              Inl e \<Rightarrow> Some (Inl e)
            | Inr (st', matches', totalRemoved') \<Rightarrow> resolve_loop st' matches' totalRemoved'))"

declare resolve_loop.simps [code]

definition resolveMatches :: "state \<Rightarrow> run list \<Rightarrow> (error + nat \<times> state) option" where
  "resolveMatches st initialMatches = resolve_loop st initialMatches 0"

subsection \<open>Swap attempts\<close>

definition attemptSwap :: "state \<Rightarrow> nat \<Rightarrow> nat \<Rightarrow> nat \<Rightarrow> nat \<Rightarrow> (error + state) option" where
  "attemptSwap st0 r1 c1 r2 c2 =
     (let st = st0\<lparr>processing := True\<rparr> in
      if \<not> (defined (grid st) (r1, c1) \<and> defined (grid st) (r2, c2)) then Some (Inl TypeError)
      else
        let st1 = st\<lparr>grid := swapData (r1, c1) (r2, c2) (grid st)\<rparr>;
            matches = findAllMatches (grid st1)
        in if matches \<noteq> [] then
             (case resolveMatches (st1\<lparr>moves := moves st1 - 1\<rparr>) matches of
                None \<Rightarrow> None
              | Some (Inl e) \<Rightarrow> Some (Inl e)
              | Some (Inr (n, st2)) \<Rightarrow>
                  Some (Inr (checkEndConditions (deselect (st2\<lparr>processing := False\<rparr>)))))
           else
             Some (Inr (deselect (st1\<lparr>grid := swapData (r1, c1) (r2, c2) (grid st1),
                                      processing := False\<rparr>))))"

subsection \<open>Seeding\<close>

text \<open>
  \<open>removeInitialMatches\<close>: while there are matches, the middle tile \<open>run[floor(length/2)]\<close> of
  every run gets the type \<open>(type + 1) % TYPES\<close> (in JavaScript \<open>null + 1\<close> is 1). The runs come
  from \<open>findAllMatches\<close>, so they are never empty.
\<close>

definition next_type :: "ttype \<Rightarrow> ttype" where
  "next_type t = Some (((case t of None \<Rightarrow> 0 | Some k \<Rightarrow> k) + 1) mod TYPES)"

definition bump :: "grid \<Rightarrow> run \<Rightarrow> grid" where
  "bump g run = (let pick = run ! (length run div 2) in tset g pick (next_type (tget g pick)))"

partial_function (option) sweep_loop :: "grid \<Rightarrow> run list \<Rightarrow> grid option" where
  "sweep_loop g matches =
     (if matches = [] then Some g
      else (let g' = foldl bump g matches in sweep_loop g' (findAllMatches g')))"

declare sweep_loop.simps [code]

definition removeInitialMatches :: "grid \<Rightarrow> grid option" where
  "removeInitialMatches g = sweep_loop g (findAllMatches g)"

text \<open>
  \<open>shuffleBoard\<close>: every slot gets \<open>rand(TYPES)\<close>, row by row (\<open>shuffle_row\<close> is the inner
  loop over the columns), then the sweep runs.
\<close>

definition shuffle_step :: "nat \<Rightarrow> state \<Rightarrow> nat \<Rightarrow> state" where
  "shuffle_step r st c =
     (let (t, rg) = rand TYPES (random st)
      in st\<lparr>grid := tset (grid st) (r, c) (Some t), random := rg\<rparr>)"

definition shuffle_row :: "state \<Rightarrow> nat \<Rightarrow> state" where
  "shuffle_row st r = foldl (shuffle_step r) st [0..<COLS]"

definition shuffleBoard :: "state \<Rightarrow> state option" where
  "shuffleBoard st =
     (let st' = foldl shuffle_row st [0..<ROWS]
      in map_option (\<lambda>g. st'\<lparr>grid := g\<rparr>) (removeInitialMatches (grid st')))"

text \<open>
  \<open>randomTypeSafe\<close> runs while \<open>init\<close> is filling the grid, when a slot of the grid is either
  still \<open>null\<close> or already holds a tile object. \<open>slot_at\<close> reads \<open>grid[r][c]\<close> for an existing row
  \<open>r\<close>; outside the row it is \<open>undefined\<close>, which behaves like \<open>null\<close> in both uses made of it
  (it is falsy, and reading \<open>.type\<close> from it throws).
\<close>

datatype slot = Null | Tile ttype

type_synonym board = "slot list list"

definition slot_at :: "board \<Rightarrow> nat \<Rightarrow> nat \<Rightarrow> slot" where
  "slot_at b r c = (if r < length b \<and> c < length (b ! r) then b ! r ! c else Null)"

function randomTypeSafe_loop :: "board \<Rightarrow> nat \<Rightarrow> nat \<Rightarrow> nat \<Rightarrow> rng \<Rightarrow> error + nat \<times> rng" where
  "randomTypeSafe_loop b r c tries rg =
     (let (t, rg') = rand TYPES rg in
      if tries > 15 then Inr (t, rg')
      else if c \<ge> 2 \<and> r < length b \<and> slot_at b r (c - 1) \<noteq> Null \<and> slot_at b r (c - 2) \<noteq> Null
              \<and> slot_at b r (c - 1) = Tile (Some t) \<and> slot_at b r (c - 2) = Tile (Some t)
        then randomTypeSafe_loop b r c (tries + 1) rg'
      else if r \<ge> 2 \<and> r - 1 < length b \<and> r - 2 < length b then
        (case slot_at b (r - 1) c of
           Null \<Rightarrow> Inl TypeError
         | Tile t1 \<Rightarrow>
             if t1 = Some t then
               (case slot_at b (r - 2) c of
                  Null \<Rightarrow> Inl TypeError
                | Tile t2 \<Rightarrow> if t2 = Some t then randomTypeSafe_loop b r c (tries + 1) rg'
                             else Inr (t, rg'))
             else Inr (t, rg'))
      else Inr (t, rg'))"
  by pat_completeness auto
termination
  by (relation "measure (\<lambda>(b, r, c, tries, rg). 16 - tries)") auto

definition randomTypeSafe :: "board \<Rightarrow> nat \<Rightarrow> nat \<Rightarrow> rng \<Rightarrow> error + nat \<times> rng" where
  "randomTypeSafe b r c rg = randomTypeSafe_loop b r c 0 rg"

section \<open>Example boards\<close>

definition example_grid :: grid where
  "example_grid = map (map Some)
     [[0, 0, 0, 0, 0, 1, 2, 3],
      [1, 2, 3, 4, 5, 0, 1, 2],
      [1, 3, 4, 5, 0, 1, 2, 3],
      [1, 4, 5, 0, 1, 2, 3, 4],
      [4, 5, 0, 1, 2, 3, 4, 5],
      [5, 0, 1, 2, 3, 4, 5, 0],
      [0, 1, 2, 3, 4, 5, 0, 1],
      [1, 2, 3, 4, 5, 0, 1, 2]]"

definition gap_grid :: grid where
  "gap_grid = remove_tiles [(4, 2), (5, 2), (6, 2), (2, 5)] example_grid"

definition run_a :: run where "run_a = [(2, 0), (2, 1), (2, 2)]"

definition run_b :: run where "run_b = [(0, 2), (1, 2), (2, 2)]"

text \<open>A grid without matches: the type at \<open>(r,c)\<close> is \<open>(r + c) mod 6\<close>.\<close>

definition quiet_grid :: grid where
  "quiet_grid = map (map Some)
     [[0, 1, 2, 3, 4, 5, 0, 1],
      [1, 2, 3, 4, 5, 0, 1, 2],
      [2, 3, 4, 5, 0, 1, 2, 3],
      [3, 4, 5, 0, 1, 2, 3, 4],
      [4, 5, 0, 1, 2, 3, 4, 5],
      [5, 0, 1, 2, 3, 4, 5, 0],
      [0, 1, 2, 3, 4, 5, 0, 1],
      [1, 2, 3, 4, 5, 0, 1, 2]]"

definition quiet_state :: state where
  "quiet_state = \<lparr>grid = quiet_grid, score = 120, moves = 17, selected = Some (0, 0),
     processing = False, overlay = None, random = \<lparr>rnd = (\<lambda>i. i), rpos = 0\<rparr>\<rparr>"

text \<open>
  A board being filled by \<open>init\<close>: two rows are complete and the slot \<open>(2,2)\<close> is next, with
  two tiles of type 1 to its left. Two random sources: one that always draws 1, one that
  draws 1 fifteen times and then 0.
\<close>

definition seed_board :: board where
  "seed_board =
     [[Tile (Some 0), Tile (Some 1), Tile (Some 2)],
      [Tile (Some 0), Tile (Some 2), Tile (Some 1)],
      [Tile (Some 1), Tile (Some 1), Null]]"

definition stuck_rng :: rng where
  "stuck_rng = \<lparr>rnd = (\<lambda>i. 1), rpos = 0\<rparr>"

definition late_rng :: rng where
  "late_rng = \<lparr>rnd = (\<lambda>i. if i < 15 then 1 else 0), rpos = 0\<rparr>"

text \<open>The type returned and the number of draws made so far, or nothing after an error.\<close>

definition type_and_draws :: "error + nat \<times> rng \<Rightarrow> (nat \<times> nat) option" where
  "type_and_draws res = (case res of Inl e \<Rightarrow> None | Inr (t, rg) \<Rightarrow> Some (t, rpos rg))"


definition example_state :: state where
  "example_state = \<lparr>grid = example_grid, score = 0, moves = 30, selected = None,
     processing = False, overlay = None, random = \<lparr>rnd = (\<lambda>i. i), rpos = 0\<rparr>\<rparr>"

section \<open>Vocabulary of the specification\<close>

text \<open>
  A run of a line (a row read by column, a column read by row) is given by its first index
  and its length; it is maximal when it cannot be extended on either side, and it counts as
  a match when its length is at least \<open>MATCH_MIN\<close>. \<open>line\<close> gives the type at every index of
  the line, \<open>n\<close> is the length of the line.
\<close>

definition maximal_run :: "(nat \<Rightarrow> 'a) \<Rightarrow> nat \<Rightarrow> nat \<Rightarrow> nat \<Rightarrow> bool" where
  "maximal_run line n s len \<longleftrightarrow>
     MATCH_MIN \<le> len \<and> s + len \<le> n \<and> (\<forall>i<len. line (s + i) = line s) \<and>
     (s = 0 \<or> line (s - 1) \<noteq> line s) \<and> (s + len = n \<or> line (s + len) \<noteq> line s)"

definition horizontal_runs :: "grid \<Rightarrow> run set" where
  "horizontal_runs g = {map (\<lambda>c. (r, c)) [c0..<c0 + len] | r c0 len.
      r < ROWS \<and> maximal_run (\<lambda>c. g ! r ! c) COLS c0 len}"

definition vertical_runs :: "grid \<Rightarrow> run set" where
  "vertical_runs g = {map (\<lambda>r. (r, c)) [r0..<r0 + len] | c r0 len.
      c < COLS \<and> maximal_run (\<lambda>r. g ! r ! c) ROWS r0 len}"


definition match_free :: "grid \<Rightarrow> bool" where
  "match_free g \<longleftrightarrow> horizontal_runs g = {} \<and> vertical_runs g = {}"

definition column :: "grid \<Rightarrow> nat \<Rightarrow> ttype list" where
  "column g c = map (\<lambda>row. row ! c) g"

text \<open>The tiles of a column: its non-null types, from top to bottom.\<close>

definition tiles :: "ttype list \<Rightarrow> ttype list" where
  "tiles xs = filter (\<lambda>t. t \<noteq> None) xs"



text \<open>
  A type \<open>t\<close> put at \<open>(r,c)\<close> completes a run of three with the two slots to the left, or with
  the two slots above, when both already hold a tile of type \<open>t\<close>.
\<close>

definition completes_left :: "board \<Rightarrow> nat \<Rightarrow> nat \<Rightarrow> nat \<Rightarrow> bool" where
  "completes_left b r c t \<longleftrightarrow>
     c \<ge> 2 \<and> slot_at b r (c - 1) = Tile (Some t) \<and> slot_at b r (c - 2) = Tile (Some t)"

definition completes_up :: "board \<Rightarrow> nat \<Rightarrow> nat \<Rightarrow> nat \<Rightarrow> bool" where
  "completes_up b r c t \<longleftrightarrow>
     r \<ge> 2 \<and> slot_at b (r - 1) c = Tile (Some t) \<and> slot_at b (r - 2) c = Tile (Some t)"

section \<open>Auxiliary definitions of the proofs\<close>

text \<open>
  The bodies of the two scanning loops are instances of one step function over a line:
  \<open>mk\<close> turns an index of the line into a coordinate, \<open>key\<close> reads the index back.
\<close>

definition scan_step ::
  "(nat \<Rightarrow> 'a) \<Rightarrow> (nat \<Rightarrow> point) \<Rightarrow> (point \<Rightarrow> nat) \<Rightarrow> nat \<Rightarrow> run \<times> run list \<Rightarrow> nat \<Rightarrow> run \<times> run list" where
  "scan_step line mk key n = (\<lambda>(run, matches) i.
     if i < n \<and> line i = line (key (hd run)) then (run @ [mk i], matches)
     else ([mk i], if length run \<ge> MATCH_MIN then matches @ [run] else matches))"

text \<open>The body of the inner loop of \<open>dropTiles\<close>, on one column taken as a list.\<close>

definition drop1_step :: "ttype list \<times> int \<Rightarrow> nat \<Rightarrow> ttype list \<times> int" where
  "drop1_step = (\<lambda>(xs, write) r.
     if xs ! r \<noteq> None then
       (if int r \<noteq> write then (xs[nat write := xs ! r, r := None], write - 1) else (xs, write - 1))
     else (xs, write))"









section \<open>Match detection finds the maximal runs\<close>

lemma MATCH_MIN_pos: "0 < MATCH_MIN" by (simp add: MATCH_MIN_def)

lemma maximal_run_break:
  assumes sk: "s \<le> k" and eq: "\<forall>i. s \<le> i \<and> i \<le> k \<longrightarrow> line i = line s"
    and left: "s = 0 \<or> line (s - 1) \<noteq> line s"
    and brk: "Suc k = n \<or> (Suc k < n \<and> line (Suc k) \<noteq> line s)"
  shows "(maximal_run line n c0 len \<and> c0 + len \<le> Suc k) \<longleftrightarrow>
         (maximal_run line n c0 len \<and> c0 + len \<le> s) \<or>
         (c0 = s \<and> len = Suc k - s \<and> MATCH_MIN \<le> Suc k - s)"
proof
  assume a: "maximal_run line n c0 len \<and> c0 + len \<le> Suc k"
  then have m: "maximal_run line n c0 len" and le: "c0 + len \<le> Suc k" by auto
  from m have len1: "0 < len" using MATCH_MIN_pos by (auto simp: maximal_run_def)
  from m have all: "\<And>i. i < len \<Longrightarrow> line (c0 + i) = line c0" by (auto simp: maximal_run_def)
  from m have l0: "c0 = 0 \<or> line (c0 - 1) \<noteq> line c0" by (auto simp: maximal_run_def)
  from m have r0: "c0 + len = n \<or> line (c0 + len) \<noteq> line c0" by (auto simp: maximal_run_def)
  show "(maximal_run line n c0 len \<and> c0 + len \<le> s) \<or>
         (c0 = s \<and> len = Suc k - s \<and> MATCH_MIN \<le> Suc k - s)"
  proof (cases "c0 + len \<le> s")
    case True
    with m show ?thesis by simp
  next
    case False
    then have gt: "s < c0 + len" by simp
    have last: "line (c0 + len - 1) = line c0" using all[of "len - 1"] len1 by simp
    have eqi: "\<And>i. s \<le> i \<Longrightarrow> i \<le> k \<Longrightarrow> line i = line s" using eq by blast
    have lasts: "line (c0 + len - 1) = line s" using gt le by (intro eqi) auto
    have e: "c0 + len = Suc k"
    proof (rule ccontr)
      assume "c0 + len \<noteq> Suc k"
      then have lt: "c0 + len \<le> k" using le by simp
      then have "line (c0 + len) = line s" using gt by (intro eqi) auto
      moreover have "c0 + len \<noteq> n" using lt brk by auto
      ultimately show False using r0 last lasts by simp
    qed
    have c: "c0 = s"
    proof (rule ccontr)
      assume ne: "c0 \<noteq> s"
      show False
      proof (cases "c0 < s")
        case True
        then have "s - c0 < len" "s - 1 - c0 < len" using gt by auto
        then have "line (c0 + (s - c0)) = line c0" "line (c0 + (s - 1 - c0)) = line c0"
          using all by blast+
        then have "line s = line (s - 1)" using True by simp
        with left True show False by simp
      next
        case False
        then have g: "s < c0" using ne by simp
        then have "line (c0 - 1) = line s" "line c0 = line s" using e len1 by (auto intro!: eqi)
        with l0 g show False by simp
      qed
    qed
    from m have "MATCH_MIN \<le> len" by (simp add: maximal_run_def)
    with c e show ?thesis by auto
  qed
next
  assume "(maximal_run line n c0 len \<and> c0 + len \<le> s) \<or>
         (c0 = s \<and> len = Suc k - s \<and> MATCH_MIN \<le> Suc k - s)"
  then show "maximal_run line n c0 len \<and> c0 + len \<le> Suc k"
  proof
    assume "maximal_run line n c0 len \<and> c0 + len \<le> s"
    with sk show ?thesis by simp
  next
    assume b: "c0 = s \<and> len = Suc k - s \<and> MATCH_MIN \<le> Suc k - s"
    then have "s + len = Suc k" using sk by simp
    moreover have "\<forall>i<len. line (s + i) = line s"
    proof (intro allI impI)
      fix i assume "i < len"
      then have "s \<le> s + i \<and> s + i \<le> k" using b sk by auto
      then show "line (s + i) = line s" using eq by blast
    qed
    moreover have "s + len = n \<or> line (s + len) \<noteq> line s" using brk \<open>s + len = Suc k\<close> by auto
    moreover have "s + len \<le> n" using brk \<open>s + len = Suc k\<close> by auto
    ultimately show ?thesis using b left by (simp add: maximal_run_def)
  qed
qed

lemma map_upt_inj:
  assumes inj: "inj mk" and "map mk [a..<b] = map mk [c..<d]" and "a < b"
  shows "a = c \<and> b = d"
proof -
  have "[a..<b] = [c..<d]" using assms(2) inj by (simp add: inj_map_eq_map)
  then show ?thesis using assms(3)
    by (metis length_upt upt_eq_Nil_conv nth_upt add.right_neutral add_diff_inverse_nat hd_upt less_imp_le_nat not_less diff_is_0_eq' zero_less_diff le_add_diff_inverse)
qed

lemma flush_set:
  assumes inj: "inj mk" and sk: "s \<le> k" and eq: "\<forall>i. s \<le> i \<and> i \<le> k \<longrightarrow> line i = line s"
    and left: "s = 0 \<or> line (s - 1) \<noteq> line s"
    and brk: "Suc k = n \<or> (Suc k < n \<and> line (Suc k) \<noteq> line s)"
    and dist: "distinct Ms"
    and setM: "set Ms = {map mk [c0..<c0 + len] | c0 len. maximal_run line n c0 len \<and> c0 + len \<le> s}"
  defines "Ms' \<equiv> (if MATCH_MIN \<le> Suc k - s then Ms @ [map mk [s..<Suc k]] else Ms)"
  shows "distinct Ms' \<and>
     set Ms' = {map mk [c0..<c0 + len] | c0 len. maximal_run line n c0 len \<and> c0 + len \<le> Suc k}"
proof -
  have notin: "map mk [s..<Suc k] \<notin> set Ms"
  proof
    assume "map mk [s..<Suc k] \<in> set Ms"
    then obtain c0 len where "map mk [s..<Suc k] = map mk [c0..<c0 + len]" and "c0 + len \<le> s"
      using setM by auto
    moreover have "s < Suc k" using sk by simp
    ultimately show False using map_upt_inj[OF inj, of s "Suc k" c0 "c0 + len"] by simp
  qed
  have brkset: "{map mk [c0..<c0 + len] | c0 len. maximal_run line n c0 len \<and> c0 + len \<le> Suc k} =
      set Ms \<union> (if MATCH_MIN \<le> Suc k - s then {map mk [s..<Suc k]} else {})"
    (is "?L = ?R")
  proof (intro set_eqI iffI)
    fix x assume "x \<in> ?L"
    then obtain c0 len where x: "x = map mk [c0..<c0 + len]" and m: "maximal_run line n c0 len \<and> c0 + len \<le> Suc k"
      by blast
    from m maximal_run_break[OF sk eq left brk, of c0 len]
    have "(maximal_run line n c0 len \<and> c0 + len \<le> s) \<or> (c0 = s \<and> len = Suc k - s \<and> MATCH_MIN \<le> Suc k - s)"
      by blast
    then show "x \<in> ?R"
    proof
      assume "maximal_run line n c0 len \<and> c0 + len \<le> s"
      then show ?thesis using x setM by blast
    next
      assume b: "c0 = s \<and> len = Suc k - s \<and> MATCH_MIN \<le> Suc k - s"
      then have "c0 + len = Suc k" using sk by simp
      then show ?thesis using x b by simp
    qed
  next
    fix x assume xr: "x \<in> ?R"
    show "x \<in> ?L"
    proof (cases "x \<in> set Ms")
      case True
      then obtain c0 len where x: "x = map mk [c0..<c0 + len]" and m: "maximal_run line n c0 len \<and> c0 + len \<le> s"
        using setM by blast
      then have "maximal_run line n c0 len \<and> c0 + len \<le> Suc k" using sk by simp
      with x show ?thesis by blast
    next
      case False
      with xr have mm: "MATCH_MIN \<le> Suc k - s" and x: "x = map mk [s..<Suc k]"
        by (auto split: if_splits)
      have "maximal_run line n s (Suc k - s) \<and> s + (Suc k - s) \<le> Suc k"
        using maximal_run_break[OF sk eq left brk, of s "Suc k - s"] mm by blast
      moreover have "s + (Suc k - s) = Suc k" using sk by simp
      ultimately have "x = map mk [s..<s + (Suc k - s)] \<and> maximal_run line n s (Suc k - s) \<and> s + (Suc k - s) \<le> Suc k"
        using x by simp
      then show ?thesis by blast
    qed
  qed
  show ?thesis using notin dist brkset by (simp add: Ms'_def)
qed

lemma scan_inv:
  assumes key: "\<And>i. key (mk i) = i" and inj: "inj mk"
  shows "k < n \<Longrightarrow> \<exists>s Ms. foldl (scan_step line mk key n) ([mk 0], M0) [1..<Suc k] = (map mk [s..<Suc k], M0 @ Ms) \<and>
      s \<le> k \<and> (\<forall>i. s \<le> i \<and> i \<le> k \<longrightarrow> line i = line s) \<and> (s = 0 \<or> line (s - 1) \<noteq> line s) \<and>
      distinct Ms \<and> set Ms = {map mk [c0..<c0 + len] | c0 len. maximal_run line n c0 len \<and> c0 + len \<le> s}"
proof (induction k)
  case 0
  have "{map mk [c0..<c0 + len] | c0 len. maximal_run line n c0 len \<and> c0 + len \<le> 0} = {}"
    using MATCH_MIN_pos by (auto simp: maximal_run_def)
  then show ?case by (intro exI[of _ 0] exI[of _ "[]"]) simp
next
  case (Suc k)
  from Suc.prems have "k < n" by simp
  from Suc.IH[OF this] obtain s Ms where st: "foldl (scan_step line mk key n) ([mk 0], M0) [1..<Suc k] = (map mk [s..<Suc k], M0 @ Ms)"
    and sk: "s \<le> k" and eq: "\<forall>i. s \<le> i \<and> i \<le> k \<longrightarrow> line i = line s"
    and left: "s = 0 \<or> line (s - 1) \<noteq> line s" and dist: "distinct Ms"
    and setM: "set Ms = {map mk [c0..<c0 + len] | c0 len. maximal_run line n c0 len \<and> c0 + len \<le> s}"
    by blast
  have hdrun: "key (hd (map mk [s..<Suc k])) = s" using sk key by (simp add: upt_conv_Cons del: upt_Suc)
  have fold: "foldl (scan_step line mk key n) ([mk 0], M0) [1..<Suc (Suc k)] =
      scan_step line mk key n (map mk [s..<Suc k], M0 @ Ms) (Suc k)"
    using st by simp
  show ?case
  proof (cases "line (Suc k) = line s")
    case True
    then have "scan_step line mk key n (map mk [s..<Suc k], M0 @ Ms) (Suc k) = (map mk [s..<Suc (Suc k)], M0 @ Ms)"
      using Suc.prems hdrun sk by (simp add: scan_step_def del: upt_Suc) simp
    then have f: "foldl (scan_step line mk key n) ([mk 0], M0) [1..<Suc (Suc k)] = (map mk [s..<Suc (Suc k)], M0 @ Ms)"
      using fold by (simp only:)
    have eq': "\<forall>i. s \<le> i \<and> i \<le> Suc k \<longrightarrow> line i = line s" using eq True by (metis le_Suc_eq)
    have sk': "s \<le> Suc k" using sk by simp
    show ?thesis
      by (rule exI[of _ s], rule exI[of _ Ms], intro conjI) (rule f sk' eq' left dist setM)+
  next
    case False
    let ?Ms' = "if MATCH_MIN \<le> Suc k - s then Ms @ [map mk [s..<Suc k]] else Ms"
    have brk: "Suc k = n \<or> (Suc k < n \<and> line (Suc k) \<noteq> line s)" using False Suc.prems by simp
    have step: "scan_step line mk key n (map mk [s..<Suc k], M0 @ Ms) (Suc k) = ([mk (Suc k)], M0 @ ?Ms')"
      using False hdrun sk by (simp add: scan_step_def Suc_diff_le del: upt_Suc)
    have run1: "[mk (Suc k)] = map mk [Suc k..<Suc (Suc k)]" by simp
    have "line k = line s" using eq sk by blast
    then have left': "Suc k = 0 \<or> line (Suc k - 1) \<noteq> line (Suc k)" using False by simp
    have eq': "\<forall>i. Suc k \<le> i \<and> i \<le> Suc k \<longrightarrow> line i = line (Suc k)" by (metis le_antisym)
    from flush_set[OF inj sk eq left brk dist setM]
    have "distinct ?Ms' \<and> set ?Ms' = {map mk [c0..<c0 + len] | c0 len. maximal_run line n c0 len \<and> c0 + len \<le> Suc k}" .
    then have d: "distinct ?Ms'"
      and sm: "set ?Ms' = {map mk [c0..<c0 + len] | c0 len. maximal_run line n c0 len \<and> c0 + len \<le> Suc k}"
      by blast+
    have f: "foldl (scan_step line mk key n) ([mk 0], M0) [1..<Suc (Suc k)] = (map mk [Suc k..<Suc (Suc k)], M0 @ ?Ms')"
      using fold step run1 by (simp only:)
    show ?thesis
      by (rule exI[of _ "Suc k"], rule exI[of _ ?Ms'], intro conjI) (rule f le_refl eq' left' d sm)+
  qed
qed

lemma scan_line:
  assumes key: "\<And>i. key (mk i) = i" and inj: "inj mk" and n: "0 < n"
  shows "\<exists>Ms. snd (foldl (scan_step line mk key n) ([mk 0], M0) [1..<Suc n]) = M0 @ Ms \<and> distinct Ms \<and>
     set Ms = {map mk [c0..<c0 + len] | c0 len. maximal_run line n c0 len}"
proof -
  obtain k where k: "n = Suc k" using n by (cases n) auto
  then have "k < n" by simp
  from scan_inv[OF key inj this, of line M0] obtain s Ms where
    st: "foldl (scan_step line mk key n) ([mk 0], M0) [1..<Suc k] = (map mk [s..<Suc k], M0 @ Ms)"
    and sk: "s \<le> k" and eq: "\<forall>i. s \<le> i \<and> i \<le> k \<longrightarrow> line i = line s"
    and left: "s = 0 \<or> line (s - 1) \<noteq> line s" and dist: "distinct Ms"
    and setM: "set Ms = {map mk [c0..<c0 + len] | c0 len. maximal_run line n c0 len \<and> c0 + len \<le> s}"
    by blast
  let ?Ms' = "if MATCH_MIN \<le> Suc k - s then Ms @ [map mk [s..<Suc k]] else Ms"
  have brk: "Suc k = n \<or> (Suc k < n \<and> line (Suc k) \<noteq> line s)" using k by simp
  have "foldl (scan_step line mk key n) ([mk 0], M0) [1..<Suc n] =
      scan_step line mk key n (map mk [s..<Suc k], M0 @ Ms) n"
    using st k by simp
  also have "\<dots> = ([mk n], M0 @ ?Ms')" using sk k by (simp add: scan_step_def Suc_diff_le)
  finally have res: "snd (foldl (scan_step line mk key n) ([mk 0], M0) [1..<Suc n]) = M0 @ ?Ms'" by simp
  have all: "{map mk [c0..<c0 + len] | c0 len. maximal_run line n c0 len \<and> c0 + len \<le> Suc k} =
      {map mk [c0..<c0 + len] | c0 len. maximal_run line n c0 len}"
    using k by (auto simp: maximal_run_def)
  from flush_set[OF inj sk eq left brk dist setM] all res show ?thesis by (intro exI[of _ ?Ms']) simp
qed

lemma hstep_scan: "hstep g r = scan_step (\<lambda>c. g ! r ! c) (\<lambda>c. (r, c)) snd COLS"
  by (simp add: hstep_def scan_step_def)

lemma vstep_scan: "vstep g c = scan_step (\<lambda>r. g ! r ! c) (\<lambda>r. (r, c)) fst ROWS"
  by (simp add: vstep_def scan_step_def)

lemma scan_prefix:
  "foldl (scan_step line mk key n) (run, M0 @ M) xs =
     (fst (foldl (scan_step line mk key n) (run, M) xs), M0 @ snd (foldl (scan_step line mk key n) (run, M) xs))"
  by (induction xs arbitrary: run M) (simp_all add: scan_step_def)

lemma hscan_append: "hscan g M r = M @ hscan g [] r"
  using scan_prefix[of "\<lambda>c. g ! r ! c" "\<lambda>c. (r, c)" snd COLS "[(r, 0)]" M "[]"]
  by (simp add: hscan_def hstep_scan)

lemma vscan_append: "vscan g M c = M @ vscan g [] c"
  using scan_prefix[of "\<lambda>r. g ! r ! c" "\<lambda>r. (r, c)" fst ROWS "[(0, c)]" M "[]"]
  by (simp add: vscan_def vstep_scan)

lemma hscan_runs:
  "distinct (hscan g [] r) \<and>
   set (hscan g [] r) = {map (\<lambda>c. (r, c)) [c0..<c0 + len] | c0 len. maximal_run (\<lambda>c. g ! r ! c) COLS c0 len}"
proof -
  have "inj (\<lambda>c::nat. (r, c))" by (simp add: inj_def)
  moreover have "0 < COLS" by (simp add: COLS_def)
  ultimately show ?thesis
    using scan_line[of snd "\<lambda>c. (r, c)" COLS "\<lambda>c. g ! r ! c" "[]"]
    by (simp add: hscan_def hstep_scan)
qed

lemma vscan_runs:
  "distinct (vscan g [] c) \<and>
   set (vscan g [] c) = {map (\<lambda>r. (r, c)) [r0..<r0 + len] | r0 len. maximal_run (\<lambda>r. g ! r ! c) ROWS r0 len}"
proof -
  have "inj (\<lambda>r::nat. (r, c))" by (simp add: inj_def)
  moreover have "0 < ROWS" by (simp add: ROWS_def)
  ultimately show ?thesis
    using scan_line[of fst "\<lambda>r. (r, c)" ROWS "\<lambda>r. g ! r ! c" "[]"]
    by (simp add: vscan_def vstep_scan)
qed

lemma foldl_hscan: "foldl (hscan g) M [0..<n] = M @ concat (map (hscan g []) [0..<n])"
  by (induction n) (simp_all add: hscan_append[of g "_ @ _"])

lemma foldl_vscan: "foldl (vscan g) M [0..<n] = M @ concat (map (vscan g []) [0..<n])"
  by (induction n) (simp_all add: vscan_append[of g "_ @ _"])

lemma findAllMatches_concat:
  "findAllMatches g = concat (map (hscan g []) [0..<ROWS]) @ concat (map (vscan g []) [0..<COLS])"
  by (simp add: findAllMatches_def foldl_hscan foldl_vscan)

lemma distinct_concat_upt:
  assumes d: "\<And>i. distinct (f i)" and disj: "\<And>i j x. i < j \<Longrightarrow> x \<in> set (f i) \<Longrightarrow> x \<notin> set (f j)"
  shows "distinct (concat (map f [0..<n]))"
proof (induction n)
  case 0
  show ?case by simp
next
  case (Suc n)
  have "set (concat (map f [0..<n])) \<inter> set (f n) = {}" using disj by auto
  with Suc d show ?case by simp
qed

lemma MATCH_MIN_ge2: "2 \<le> MATCH_MIN" by (simp add: MATCH_MIN_def)

lemma hscan_shape:
  assumes "x \<in> set (hscan g [] r)"
  shows "2 \<le> length x \<and> fst (x ! 0) = r \<and> fst (x ! 1) = r"
proof -
  from assms obtain c0 len where x: "x = map (\<lambda>c. (r, c)) [c0..<c0 + len]"
    and m: "maximal_run (\<lambda>c. g ! r ! c) COLS c0 len"
    using hscan_runs[of g r] by auto
  from m have "2 \<le> len" using MATCH_MIN_ge2 by (simp add: maximal_run_def)
  with x show ?thesis by simp
qed

lemma vscan_shape:
  assumes "x \<in> set (vscan g [] c)"
  shows "2 \<le> length x \<and> snd (x ! 0) = c \<and> fst (x ! 1) = Suc (fst (x ! 0))"
proof -
  from assms obtain r0 len where x: "x = map (\<lambda>r. (r, c)) [r0..<r0 + len]"
    and m: "maximal_run (\<lambda>r. g ! r ! c) ROWS r0 len"
    using vscan_runs[of g c] by auto
  from m have "2 \<le> len" using MATCH_MIN_ge2 by (simp add: maximal_run_def)
  with x show ?thesis by simp
qed

lemma findAllMatches_set: "set (findAllMatches g) = horizontal_runs g \<union> vertical_runs g"
proof -
  have hs: "\<And>r. set (hscan g [] r) = {map (\<lambda>c. (r, c)) [c0..<c0 + len] | c0 len. maximal_run (\<lambda>c. g ! r ! c) COLS c0 len}"
    using hscan_runs by blast
  have vs: "\<And>c. set (vscan g [] c) = {map (\<lambda>r. (r, c)) [r0..<r0 + len] | r0 len. maximal_run (\<lambda>r. g ! r ! c) ROWS r0 len}"
    using vscan_runs by blast
  have h: "(\<Union>r\<in>{0..<ROWS}. set (hscan g [] r)) = horizontal_runs g"
    unfolding horizontal_runs_def apply (simp add: hs) apply (rule set_eqI) apply simp apply (rule iffI) apply (elim bexE exE conjE) apply (intro exI conjI) apply assumption apply simp apply assumption apply (elim exE conjE) apply (rule bexI) apply (intro exI conjI) apply assumption+ apply simp done
  have v: "(\<Union>c\<in>{0..<COLS}. set (vscan g [] c)) = vertical_runs g"
    unfolding vertical_runs_def apply (simp add: vs) apply (rule set_eqI) apply simp apply (rule iffI) apply (elim bexE exE conjE) apply (intro exI conjI) apply assumption apply simp apply assumption apply (elim exE conjE) apply (rule bexI) apply (intro exI conjI) apply assumption+ apply simp done
  show ?thesis by (simp add: findAllMatches_concat h v)
qed

lemma findAllMatches_distinct: "distinct (findAllMatches g)"
proof -
  have h: "distinct (concat (map (hscan g []) [0..<ROWS]))"
  proof (rule distinct_concat_upt)
    show "\<And>i. distinct (hscan g [] i)" using hscan_runs by blast
    show "\<And>i j x. i < j \<Longrightarrow> x \<in> set (hscan g [] i) \<Longrightarrow> x \<notin> set (hscan g [] j)"
      using hscan_shape by (metis less_irrefl)
  qed
  have v: "distinct (concat (map (vscan g []) [0..<COLS]))"
  proof (rule distinct_concat_upt)
    show "\<And>i. distinct (vscan g [] i)" using vscan_runs by blast
    show "\<And>i j x. i < j \<Longrightarrow> x \<in> set (vscan g [] i) \<Longrightarrow> x \<notin> set (vscan g [] j)"
      using vscan_shape by (metis less_irrefl)
  qed
  have "set (concat (map (hscan g []) [0..<ROWS])) \<inter> set (concat (map (vscan g []) [0..<COLS])) = {}"
  proof (rule ccontr)
    assume "\<not> ?thesis"
    then obtain x r c where "x \<in> set (hscan g [] r)" "x \<in> set (vscan g [] c)" by auto
    then have "fst (x ! 0) = fst (x ! 1)" "fst (x ! 1) = Suc (fst (x ! 0))"
      using hscan_shape[of x g r] vscan_shape[of x g c] by simp_all
    then show False by simp
  qed
  with h v show ?thesis by (simp add: findAllMatches_concat)
qed

lemma example_grid_wf: "wf_grid example_grid"
  by (simp add: wf_grid_def example_grid_def ROWS_def COLS_def)

lemma example_grid_matches:
  "findAllMatches example_grid = [[(0, 0), (0, 1), (0, 2), (0, 3), (0, 4)], [(1, 0), (2, 0), (3, 0)]]"
  by code_simp

text \<open>
  Claim C2. On a grid of the regular shape (fully populated or not: a null type is compared
  like any other), \<open>findAllMatches\<close> returns exactly the maximal horizontal and vertical runs
  of equal types of length at least \<open>MATCH_MIN\<close>, each of them once and at its full length.
\<close>

theorem findAllMatches_maximal_runs:
  assumes "wf_grid g"
  shows "set (findAllMatches g) = horizontal_runs g \<union> vertical_runs g \<and> distinct (findAllMatches g)"
  using findAllMatches_set findAllMatches_distinct by blast

theorem findAllMatches_maximal_runs_witness:
  "wf_grid example_grid \<and>
   horizontal_runs example_grid \<union> vertical_runs example_grid =
     {[(0, 0), (0, 1), (0, 2), (0, 3), (0, 4)], [(1, 0), (2, 0), (3, 0)]}"
  using findAllMatches_maximal_runs [OF example_grid_wf] example_grid_wf
  by (simp add: example_grid_matches)

section \<open>Gravity\<close>

lemma tiles_Cons: "tiles (x # xs) = (if x = None then tiles xs else x # tiles xs)"
  by (simp add: tiles_def)

lemma tiles_Nil: "tiles [] = []"
  by (simp add: tiles_def)

lemma length_tiles_le: "length (tiles xs) \<le> length xs"
  by (simp add: tiles_def)

lemma drop1_inv:
  assumes len: "length xs = n" and kn: "k \<le> n"
  shows "foldl drop1_step (xs, int n - 1) (rev [k..<n]) =
     (take k xs @ replicate (n - k - length (tiles (drop k xs))) None @ tiles (drop k xs),
      int n - 1 - int (length (tiles (drop k xs))))"
  using kn
proof (induction rule: inc_induct)
  case base
  show ?case using len by (simp add: tiles_Nil)
next
  case (step k)
  let ?F = "tiles (drop (Suc k) xs)"
  let ?m = "length ?F"
  let ?ys = "take (Suc k) xs @ replicate (n - Suc k - ?m) None @ ?F"
  have mle: "?m \<le> n - Suc k"
    using length_tiles_le[of "drop (Suc k) xs"] len by simp
  have k: "k < length xs" using step len by simp
  have upt: "rev [k..<n] = rev [Suc k..<n] @ [k]" using step by (simp add: upt_conv_Cons)
  have fold: "foldl drop1_step (xs, int n - 1) (rev [k..<n]) = drop1_step (?ys, int n - 1 - int ?m) k"
    using step.IH by (simp add: upt)
  have ysk: "?ys ! k = xs ! k" using k by (simp add: nth_append)
  have dropk: "drop k xs = xs ! k # drop (Suc k) xs" using k by (simp add: Cons_nth_drop_Suc)
  have takek: "take (Suc k) xs = take k xs @ [xs ! k]" using k by (simp add: take_Suc_conv_app_nth)
  show ?case
  proof (cases "xs ! k = None")
    case True
    have "replicate (n - k - ?m) None = None # replicate (n - Suc k - ?m) (None::ttype)"
      using mle step by (simp add: Suc_diff_le flip: replicate_Suc)
    then show ?thesis using True fold ysk by (simp add: drop1_step_def dropk takek tiles_Cons)
  next
    case False
    have F': "tiles (drop k xs) = xs ! k # ?F" using False by (simp add: dropk tiles_Cons)
    show ?thesis
    proof (cases "int k = int n - 1 - int ?m")
      case True
      then have z: "n - Suc k - ?m = 0" by linarith
      then have z': "n - k - Suc ?m = 0" by simp
      have st: "drop1_step (?ys, int n - 1 - int ?m) k = (?ys, int n - 1 - int ?m - 1)"
        using True False ysk by (simp add: drop1_step_def)
      have "?ys = take k xs @ [xs ! k] @ ?F" using z by (simp add: takek)
      moreover have "(take k xs @ replicate (n - k - length (tiles (drop k xs))) None @ tiles (drop k xs),
             int n - 1 - int (length (tiles (drop k xs)))) =
            (take k xs @ [xs ! k] @ ?F, int n - 1 - int ?m - 1)"
        using z' by (simp add: F')
      ultimately show ?thesis using fold st by (simp only:)
    next
      case ne: False
      then have pos: "0 < n - Suc k - ?m" using mle step by linarith
      obtain j where j: "n - Suc k - ?m = Suc j" using pos by (cases "n - Suc k - ?m") auto
      have w: "nat (int n - 1 - int ?m) = Suc k + j" using j mle step by linarith
      have ys: "?ys = take k xs @ [xs ! k] @ replicate j None @ [None] @ ?F"
        using j by (simp add: takek replicate_append_same)
      have lt: "length (take k xs) = k" using k by simp
      have upd: "?ys[Suc k + j := xs ! k, k := None] = take k xs @ [None] @ replicate j None @ [xs ! k] @ ?F"
        unfolding ys using lt by (simp add: list_update_append nth_append)
      have st: "drop1_step (?ys, int n - 1 - int ?m) k = (?ys[Suc k + j := xs ! k, k := None], int n - 1 - int ?m - 1)"
        using ne False ysk w by (simp add: drop1_step_def)
      have "(take k xs @ replicate (n - k - length (tiles (drop k xs))) None @ tiles (drop k xs),
             int n - 1 - int (length (tiles (drop k xs)))) =
            (take k xs @ [None] @ replicate j None @ [xs ! k] @ ?F, int n - 1 - int ?m - 1)"
      proof -
        have e: "n - k - length (tiles (drop k xs)) = Suc j" using j by (simp add: F')
        have l: "int (length (tiles (drop k xs))) = int ?m + 1" by (simp add: F')
        show ?thesis unfolding e l by (simp add: F')
      qed
      then show ?thesis using fold st upd by (simp only:)
    qed
  qed
qed

lemma wf_grid_tset:
  assumes "wf_grid g"
  shows "wf_grid (tset g p t)"
proof (cases "fst p < length g")
  case True
  then have "length (g ! fst p) = COLS" using assms by (simp add: wf_grid_def)
  then have "\<forall>row \<in> insert ((g ! fst p)[snd p := t]) (set g). length row = COLS"
    using assms by (simp add: wf_grid_def)
  then have "\<forall>row \<in> set (tset g p t). length row = COLS"
    using set_update_subset_insert[of g "fst p" "(g ! fst p)[snd p := t]"] unfolding tset_def by blast
  then show ?thesis using assms by (simp add: wf_grid_def tset_def)
next
  case False
  then have "tset g p t = g" by (simp add: tset_def list_update_beyond)
  then show ?thesis using assms by simp
qed


lemma nth_column: "r < length g \<Longrightarrow> column g c ! r = g ! r ! c"
  by (simp add: column_def)

lemma column_tset:
  assumes "wf_grid g" and "c < COLS"
  shows "column (tset g (r, c) t) c' = (if c' = c then (column g c)[r := t] else column g c')"
proof (rule nth_equalityI)
  show "length (column (tset g (r, c) t) c') = length (if c' = c then (column g c)[r := t] else column g c')"
    by (simp add: column_def tset_def)
next
  fix i assume "i < length (column (tset g (r, c) t) c')"
  then have i: "i < length g" by (simp add: column_def tset_def)
  then have "length (g ! i) = COLS" using assms(1) by (simp add: wf_grid_def)
  then show "column (tset g (r, c) t) c' ! i = (if c' = c then (column g c)[r := t] else column g c') ! i"
    using i assms(2) by (cases "i = r") (simp_all add: column_def tset_def)
qed

lemma drop_step_sim:
  assumes wf: "wf_grid g" and c: "c < COLS" and r: "r < ROWS"
  shows "wf_grid (fst (drop_step c (g, w) r)) \<and>
     drop1_step (column g c, w) r = (column (fst (drop_step c (g, w) r)) c, snd (drop_step c (g, w) r)) \<and>
     (\<forall>c'. c' \<noteq> c \<longrightarrow> column (fst (drop_step c (g, w) r)) c' = column g c')"
proof -
  have rl: "r < length g" using wf r by (simp add: wf_grid_def)
  have e: "column g c ! r = g ! r ! c" using rl by (rule nth_column)
  have wf1: "wf_grid (tset g (nat w, c) (g ! r ! c))" using wf by (rule wf_grid_tset)
  show ?thesis
    using wf wf1 c e
    by (simp add: drop_step_def drop1_step_def wf_grid_tset column_tset)
qed

lemma drop_fold_sim:
  assumes c: "c < COLS"
  shows "wf_grid g \<Longrightarrow> \<forall>r \<in> set rs. r < ROWS \<Longrightarrow>
     wf_grid (fst (foldl (drop_step c) (g, w) rs)) \<and>
     foldl drop1_step (column g c, w) rs =
       (column (fst (foldl (drop_step c) (g, w) rs)) c, snd (foldl (drop_step c) (g, w) rs)) \<and>
     (\<forall>c'. c' \<noteq> c \<longrightarrow> column (fst (foldl (drop_step c) (g, w) rs)) c' = column g c')"
proof (induction rs arbitrary: g w)
  case Nil
  then show ?case by simp
next
  case (Cons r rs)
  obtain g1 w1 where s1: "drop_step c (g, w) r = (g1, w1)" by (cases "drop_step c (g, w) r")
  from drop_step_sim[OF Cons.prems(1) c, of r w] Cons.prems(2) s1
  have wf1: "wf_grid g1" and d1: "drop1_step (column g c, w) r = (column g1 c, w1)"
    and o1: "\<forall>c'. c' \<noteq> c \<longrightarrow> column g1 c' = column g c'"
    by simp_all
  from Cons.IH[OF wf1, of w1] Cons.prems(2)
  show ?case using s1 d1 o1 by simp
qed

lemma drop_col_column:
  assumes wf: "wf_grid g" and c: "c < COLS"
  shows "wf_grid (drop_col g c) \<and>
     column (drop_col g c) c = replicate (ROWS - length (tiles (column g c))) None @ tiles (column g c) \<and>
     (\<forall>c'. c' \<noteq> c \<longrightarrow> column (drop_col g c) c' = column g c')"
proof -
  have len: "length (column g c) = ROWS" using wf by (simp add: column_def wf_grid_def)
  from drop_fold_sim[OF c wf, of "rev [0..<ROWS]" "int ROWS - 1"]
  have sim: "wf_grid (drop_col g c)"
    "foldl drop1_step (column g c, int ROWS - 1) (rev [0..<ROWS]) =
       (column (drop_col g c) c, snd (foldl (drop_step c) (g, int ROWS - 1) (rev [0..<ROWS])))"
    "\<forall>c'. c' \<noteq> c \<longrightarrow> column (drop_col g c) c' = column g c'"
    by (simp_all add: drop_col_def)
  from drop1_inv[OF len, of 0] sim(2)
  have "column (drop_col g c) c = replicate (ROWS - length (tiles (column g c))) None @ tiles (column g c)"
    by simp
  with sim show ?thesis by blast
qed

lemma dropTiles_fold:
  assumes wf: "wf_grid g"
  shows "n \<le> COLS \<Longrightarrow> wf_grid (foldl drop_col g [0..<n]) \<and>
     (\<forall>c. column (foldl drop_col g [0..<n]) c =
        (if c < n then replicate (ROWS - length (tiles (column g c))) None @ tiles (column g c)
         else column g c))"
proof (induction n)
  case 0
  then show ?case using wf by simp
next
  case (Suc n)
  let ?g = "foldl drop_col g [0..<n]"
  from Suc have wfn: "wf_grid ?g" and cols: "\<And>c. column ?g c =
        (if c < n then replicate (ROWS - length (tiles (column g c))) None @ tiles (column g c)
         else column g c)" by simp_all
  have n: "n < COLS" using Suc.prems by simp
  from drop_col_column[OF wfn n] cols show ?case by (auto simp: less_Suc_eq)
qed

lemma count_None_tiles: "length (filter (\<lambda>t. t = None) xs) + length (tiles xs) = length xs"
  by (induction xs) (simp_all add: tiles_Cons tiles_Nil)

lemma dropTiles_column:
  assumes wf: "wf_grid g" and c: "c < COLS"
  shows "column (dropTiles g) c = replicate (length (filter (\<lambda>t. t = None) (column g c))) None @ tiles (column g c)"
proof -
  have len: "length (column g c) = ROWS" using wf by (simp add: column_def wf_grid_def)
  have "ROWS - length (tiles (column g c)) = length (filter (\<lambda>t. t = None) (column g c))"
    using count_None_tiles[of "column g c"] len by simp
  with dropTiles_fold[OF wf, of COLS] c show ?thesis by (simp add: dropTiles_def)
qed


lemma gap_grid_value:
  "gap_grid =
     [[Some 0, Some 0, Some 0, Some 0, Some 0, Some 1, Some 2, Some 3],
      [Some 1, Some 2, Some 3, Some 4, Some 5, Some 0, Some 1, Some 2],
      [Some 1, Some 3, Some 4, Some 5, Some 0, None, Some 2, Some 3],
      [Some 1, Some 4, Some 5, Some 0, Some 1, Some 2, Some 3, Some 4],
      [Some 4, Some 5, None, Some 1, Some 2, Some 3, Some 4, Some 5],
      [Some 5, Some 0, None, Some 2, Some 3, Some 4, Some 5, Some 0],
      [Some 0, Some 1, None, Some 3, Some 4, Some 5, Some 0, Some 1],
      [Some 1, Some 2, Some 3, Some 4, Some 5, Some 0, Some 1, Some 2]]"
  by code_simp

lemma gap_grid_wf: "wf_grid gap_grid"
  by (simp add: gap_grid_value wf_grid_def ROWS_def COLS_def)

lemma gap_grid_column2:
  "column gap_grid 2 = [Some 0, Some 3, Some 4, Some 5, None, None, None, Some 3]"
  by (simp add: gap_grid_value column_def)

lemma gap_grid_column5:
  "column gap_grid 5 = [Some 1, Some 0, None, Some 2, Some 3, Some 4, Some 5, Some 0]"
  by (simp add: gap_grid_value column_def)

text \<open>
  Claim C4. \<open>dropTiles\<close> compacts every column on its own: afterwards the column consists of
  null slots at the top followed by the non-null types of the column as it was, in the order
  they had from top to bottom. The new column is a function of the old column alone.
\<close>

theorem dropTiles_compacts:
  assumes "wf_grid g" and "c < COLS"
  shows "column (dropTiles g) c =
     replicate (ROWS - length (tiles (column g c))) None @ tiles (column g c)"
proof -
  have "length (column g c) = ROWS" using assms(1) by (simp add: column_def wf_grid_def)
  then have "ROWS - length (tiles (column g c)) = length (filter (\<lambda>t. t = None) (column g c))"
    using count_None_tiles[of "column g c"] by simp
  then show ?thesis using dropTiles_column[OF assms] by simp
qed

theorem dropTiles_compacts_witness:
  "wf_grid gap_grid \<and> (2::nat) < COLS \<and>
   column (dropTiles gap_grid) 2 = [None, None, None, Some 0, Some 3, Some 4, Some 5, Some 3]"
  using dropTiles_compacts [OF gap_grid_wf, of 2] gap_grid_wf
  by (simp add: gap_grid_column2 tiles_def COLS_def ROWS_def numeral_3_eq_3)

text \<open>
  Claim C10. \<open>dropTiles\<close> neither loses nor duplicates a tile: in every column the multiset of
  non-null types and the number of null slots are the same before and after.
\<close>

theorem dropTiles_preserves_column:
  assumes "wf_grid g" and "c < COLS"
  shows "mset (tiles (column (dropTiles g) c)) = mset (tiles (column g c)) \<and>
     count_list (column (dropTiles g) c) None = count_list (column g c) None"
proof -
  have t: "tiles (replicate k None @ tiles xs) = tiles xs" for k xs
    by (simp add: tiles_def)
  have n: "count_list (replicate k None @ tiles xs) None = k" for k xs
    by (induction k) (simp_all add: tiles_def count_list_0_iff)
  have c: "count_list xs None = length (filter (\<lambda>t. t = None) xs)" for xs :: "ttype list"
    by (induction xs) simp_all
  have "count_list (column (dropTiles g) c) None = length (filter (\<lambda>t. t = None) (column g c))"
    unfolding dropTiles_column[OF assms] by (rule n)
  moreover have "tiles (column (dropTiles g) c) = tiles (column g c)"
    unfolding dropTiles_column[OF assms] by (rule t)
  ultimately show ?thesis by (simp add: c)
qed

theorem dropTiles_preserves_column_witness:
  "wf_grid gap_grid \<and> (5::nat) < COLS \<and>
   mset (tiles (column (dropTiles gap_grid) 5)) =
     {#Some 1, Some 0, Some 2, Some 3, Some 4, Some 5, Some 0#} \<and>
   count_list (column (dropTiles gap_grid) 5) None = 1"
  using dropTiles_preserves_column [OF gap_grid_wf, of 5] gap_grid_wf
  by (simp add: gap_grid_column5 tiles_def COLS_def)

section \<open>Cascade resolution\<close>

lemma foldl_inv: "(\<And>s x. f (g s x) = f s) \<Longrightarrow> f (foldl g s xs) = f s"
  by (induction xs arbitrary: s) simp_all

lemma set_add_set: "set (foldl set_add s run) = set s \<union> set run"
  by (induction run arbitrary: s) (auto simp: set_add_def)

lemma set_add_distinct: "distinct s \<Longrightarrow> distinct (foldl set_add s run)"
  by (induction run arbitrary: s) (auto simp: set_add_def)

lemma removeSet_fold_set:
  "set (foldl (\<lambda>s run. foldl set_add s run) s ms) = set s \<union> \<Union>(set ` set ms)"
  by (induction ms arbitrary: s) (auto simp: set_add_set)

lemma removeSet_fold_distinct:
  "distinct s \<Longrightarrow> distinct (foldl (\<lambda>s run. foldl set_add s run) s ms)"
  by (induction ms arbitrary: s) (auto simp: set_add_distinct)

lemma removeSet_set: "set (removeSet ms) = \<Union>(set ` set ms)"
  by (simp add: removeSet_def removeSet_fold_set)

lemma removeSet_distinct: "distinct (removeSet ms)"
  by (simp add: removeSet_def removeSet_fold_distinct)

lemma removeSet_length: "length (removeSet ms) = card (\<Union>(set ` set ms))"
  using distinct_card[OF removeSet_distinct[of ms]] by (simp add: removeSet_set)

lemma refill_step_score: "score (refill_step c st r) = score st"
  by (simp add: refill_step_def rand_def)

lemma refillTiles_score: "score (refillTiles st) = score st"
  unfolding refillTiles_def refill_col_def
  by (rule foldl_inv) (rule foldl_inv, rule refill_step_score)

lemma resolve_step_score:
  assumes "resolve_step st ms n = Inr (st', ms', n')"
  shows "score st' = score st + 10 * int (length (removeSet ms)) \<and> n' = n + length (removeSet ms)"
proof (cases "\<exists>p \<in> set (removeSet ms). \<not> defined (grid st) p")
  case True
  with assms show ?thesis by (simp add: resolve_step_def Let_def)
next
  case False
  with assms show ?thesis by (auto simp: resolve_step_def Let_def refillTiles_score)
qed

lemma resolve_loop_score:
  assumes "resolve_loop st ms n = Some res"
  shows "\<forall>tot st'. res = Inr (tot, st') \<longrightarrow> n \<le> tot \<and> score st' = score st + 10 * int (tot - n)"
proof (rule resolve_loop.raw_induct[where P = "\<lambda>st ms n res.
    \<forall>tot st'. res = Inr (tot, st') \<longrightarrow> n \<le> tot \<and> score st' = score st + 10 * int (tot - n)", OF _ assms])
  fix loop :: "state \<Rightarrow> run list \<Rightarrow> nat \<Rightarrow> (error + nat \<times> state) option"
  fix st ms n res
  assume IH: "\<And>st ms n res. loop st ms n = Some res \<Longrightarrow>
      \<forall>tot st'. res = Inr (tot, st') \<longrightarrow> n \<le> tot \<and> score st' = score st + 10 * int (tot - n)"
    and body: "(if ms = [] then Some (Inr (n, st))
      else case resolve_step st ms n of Inl e \<Rightarrow> Some (Inl e)
           | Inr (st', matches', totalRemoved') \<Rightarrow> loop st' matches' totalRemoved') = Some res"
  show "\<forall>tot st'. res = Inr (tot, st') \<longrightarrow> n \<le> tot \<and> score st' = score st + 10 * int (tot - n)"
  proof (cases "ms = []")
    case True
    with body show ?thesis by auto
  next
    case False
    show ?thesis
    proof (cases "resolve_step st ms n")
      case (Inl e)
      with body False show ?thesis by auto
    next
      case (Inr x)
      obtain st1 ms1 n1 where x: "x = (st1, ms1, n1)" by (cases x)
      with Inr body False have rec: "loop st1 ms1 n1 = Some res" by simp
      let ?k = "length (removeSet ms)"
      from resolve_step_score[OF Inr[unfolded x]]
      have s1: "score st1 = score st + 10 * int ?k" and n1: "n1 = n + ?k" by simp_all
      show ?thesis
      proof (intro allI impI)
        fix tot st' assume "res = Inr (tot, st')"
        with IH[OF rec] have le: "n1 \<le> tot" and sc: "score st' = score st1 + 10 * int (tot - n1)"
          by blast+
        have "int (tot - n) = int (tot - n1) + int ?k" using le n1 by linarith
        then show "n \<le> tot \<and> score st' = score st + 10 * int (tot - n)"
          using le n1 sc s1 by simp
      qed
    qed
  qed
qed


lemma nth_tset:
  assumes "wf_grid g" and "r < ROWS" and "c < COLS"
  shows "tset g p t ! r ! c = (if p = (r, c) then t else g ! r ! c)"
proof -
  have r: "r < length g" using assms by (simp add: wf_grid_def)
  then have c: "c < length (g ! r)" using assms by (simp add: wf_grid_def)
  show ?thesis
  proof (cases "fst p = r")
    case True
    then show ?thesis using r c by (cases p; cases "snd p = c") (simp_all add: tset_def)
  next
    case False
    then show ?thesis by (cases p) (simp add: tset_def)
  qed
qed















lemma resolveMatches_score:
  assumes "resolveMatches st ms = Some (Inr (n, st'))"
  shows "score st' = score st + 10 * int n"
  using resolve_loop_score[OF assms[unfolded resolveMatches_def]] by simp

lemma checkEndConditions_score: "score (checkEndConditions st) = score st"
  by (simp add: checkEndConditions_def showOverlay_def)

lemma attemptSwap_score:
  assumes "attemptSwap st r1 c1 r2 c2 = Some (Inr st')"
  shows "score st \<le> score st'"
proof -
  let ?g1 = "swapData (r1, c1) (r2, c2) (grid st)"
  let ?st1 = "st\<lparr>processing := True, grid := ?g1\<rparr>"
  have d: "defined (grid st) (r1, c1) \<and> defined (grid st) (r2, c2)"
    using assms by (auto simp: attemptSwap_def Let_def split: if_splits)
  show ?thesis
  proof (cases "findAllMatches ?g1 = []")
    case True
    with assms d show ?thesis by (auto simp: attemptSwap_def Let_def deselect_def)
  next
    case False
    with assms d obtain n st2 where
      r: "resolveMatches (?st1\<lparr>moves := moves st - 1\<rparr>) (findAllMatches ?g1) = Some (Inr (n, st2))"
      and st': "st' = checkEndConditions (deselect (st2\<lparr>processing := False\<rparr>))"
      by (auto simp: attemptSwap_def Let_def split: option.splits sum.splits)
    from resolveMatches_score[OF r] st' show ?thesis
      by (simp add: checkEndConditions_score deselect_def)
  qed
qed

lemma shuffle_step_score: "score (shuffle_step r st c) = score st"
  by (simp add: shuffle_step_def rand_def)

lemma shuffleBoard_score:
  assumes "shuffleBoard st = Some st'"
  shows "score st' = score st"
proof -
  have "score (foldl shuffle_row st [0..<ROWS]) = score st"
    unfolding shuffle_row_def by (rule foldl_inv) (rule foldl_inv, rule shuffle_step_score)
  with assms show ?thesis by (auto simp: shuffleBoard_def Let_def)
qed

lemma example_cascade:
  "(case resolveMatches example_state (findAllMatches example_grid) of
      Some (Inr (n, st')) \<Rightarrow> n = 8 \<and> score st' = 80 | _ \<Rightarrow> False)"
  by code_simp


lemma example_step:
  "(case resolve_step example_state (findAllMatches example_grid) 0 of
      Inr (st1, ms1, k1) \<Rightarrow> k1 = 8 | _ \<Rightarrow> False)"
  by code_simp

lemma example_swap:
  "(case attemptSwap example_state 0 0 0 1 of Some (Inr st2) \<Rightarrow> True | _ \<Rightarrow> False)"
  by code_simp

lemma example_shuffle:
  "(case shuffleBoard example_state of Some st3 \<Rightarrow> True | _ \<Rightarrow> False)"
  by code_simp



text \<open>
  Claim C5. A run of \<open>resolveMatches\<close> that returns has raised the score by exactly ten times
  the removed-tile count it returns; one iteration raises it by ten times the size of its
  removal set and counts that many tiles. No operation on a running game lowers the score:
  not a cascade, not a swap attempt, not a reshuffle, not the end-condition check.
\<close>

theorem cascade_score:
  "(resolveMatches st ms = Some (Inr (n, st')) \<longrightarrow>
      score st' = score st + 10 * int n \<and> score st \<le> score st') \<and>
   (resolve_step st ms k = Inr (st1, ms1, k1) \<longrightarrow>
      score st1 = score st + 10 * int (length (removeSet ms)) \<and> k1 = k + length (removeSet ms)) \<and>
   (attemptSwap st r1 c1 r2 c2 = Some (Inr st2) \<longrightarrow> score st \<le> score st2) \<and>
   (shuffleBoard st = Some st3 \<longrightarrow> score st3 = score st) \<and>
   score (checkEndConditions st) = score st"
  using resolveMatches_score[of st ms n st'] resolve_step_score[of st ms k st1 ms1 k1]
    attemptSwap_score[of st r1 c1 r2 c2 st2] shuffleBoard_score[of st st3]
  by (simp add: checkEndConditions_score)

theorem cascade_score_witness:
  "(\<exists>st'. resolveMatches example_state (findAllMatches example_grid) = Some (Inr (8, st')) \<and>
      score st' = 80) \<and>
   (\<exists>st1 ms1. resolve_step example_state (findAllMatches example_grid) 0 = Inr (st1, ms1, 8) \<and>
      score st1 = 80) \<and>
   (\<exists>st2. attemptSwap example_state 0 0 0 1 = Some (Inr st2) \<and> 0 \<le> score st2) \<and>
   (\<exists>st3. shuffleBoard example_state = Some st3 \<and> score st3 = 0)"
proof -
  have s0: "score example_state = 0" by (simp add: example_state_def)
  have len: "length (removeSet (findAllMatches example_grid)) = 8"
    by (simp add: example_grid_matches removeSet_def set_add_def)
  from example_cascade obtain st' where
    a: "resolveMatches example_state (findAllMatches example_grid) = Some (Inr (8, st'))"
    by (auto split: option.splits sum.splits)
  from example_step obtain st1 ms1 where
    b: "resolve_step example_state (findAllMatches example_grid) 0 = Inr (st1, ms1, 8)"
    by (auto split: sum.splits)
  from example_swap obtain st2 where c: "attemptSwap example_state 0 0 0 1 = Some (Inr st2)"
    by (auto split: option.splits sum.splits)
  from example_shuffle obtain st3 where d: "shuffleBoard example_state = Some st3"
    by (auto split: option.splits)
  from cascade_score [where st = example_state and ms = "findAllMatches example_grid" and n = 8
      and st' = st' and k = 0 and ?st1.0 = st1 and ?ms1.0 = ms1 and ?k1.0 = 8
      and ?r1.0 = 0 and ?c1.0 = 0 and ?r2.0 = 0 and ?c2.0 = 1 and ?st2.0 = st2 and ?st3.0 = st3]
  show ?thesis using a b c d s0 len by simp
qed

text \<open>
  Claim C6. When the match list consists of two runs of three coordinates that share exactly
  one coordinate, the removal set of the iteration has five elements, and the iteration
  adds 50 to the score (and 5 to the removed-tile count).
\<close>

theorem L_overlap_removes_five:
  assumes "length a = 3" and "length b = 3" and "distinct a" and "distinct b"
    and "card (set a \<inter> set b) = 1" and "\<forall>p \<in> set a \<union> set b. defined (grid st) p"
  shows "length (removeSet [a, b]) = 5 \<and>
     (\<exists>st' ms' n'. resolve_step st [a, b] n = Inr (st', ms', n') \<and>
        score st' = score st + 50 \<and> n' = n + 5)"
proof -
  have "card (set a) = 3" "card (set b) = 3" using assms by (simp_all add: distinct_card)
  moreover have "card (set a) + card (set b) = card (set a \<union> set b) + card (set a \<inter> set b)"
    by (rule card_Un_Int) simp_all
  ultimately have "card (set a \<union> set b) = 5" using assms(5) by simp
  then have len: "length (removeSet [a, b]) = 5" by (simp add: removeSet_length)
  have "\<not> (\<exists>p \<in> set (removeSet [a, b]). \<not> defined (grid st) p)"
    using assms(6) by (simp add: removeSet_set)
  then obtain st' ms' n' where r: "resolve_step st [a, b] n = Inr (st', ms', n')"
    by (simp add: resolve_step_def Let_def)
  from resolve_step_score[OF r] len r show ?thesis by simp
qed

theorem L_overlap_removes_five_witness:
  "length (removeSet [run_a, run_b]) = 5 \<and>
   (\<exists>st' ms' n'. resolve_step example_state [run_a, run_b] 0 = Inr (st', ms', n') \<and>
      score st' = 50 \<and> n' = 5)"
proof -
  have c: "card (set run_a \<inter> set run_b) = 1" by (simp add: run_a_def run_b_def)
  have d: "\<forall>p \<in> set run_a \<union> set run_b. defined (grid example_state) p"
    by (simp add: run_a_def run_b_def defined_def example_state_def example_grid_def)
  have "length run_a = 3" "length run_b = 3" "distinct run_a" "distinct run_b"
    by (simp_all add: run_a_def run_b_def)
  from L_overlap_removes_five [OF this c d, of 0] show ?thesis
    by (simp add: example_state_def)
qed

section \<open>Rejected swaps\<close>

lemma grid_eqI:
  assumes "wf_grid g" and "wf_grid h" and "\<And>r c. r < ROWS \<Longrightarrow> c < COLS \<Longrightarrow> g ! r ! c = h ! r ! c"
  shows "g = h"
proof (rule nth_equalityI)
  show "length g = length h" using assms by (simp add: wf_grid_def)
next
  fix r assume r: "r < length g"
  then have rr: "r < ROWS" "r < length h" using assms by (simp_all add: wf_grid_def)
  show "g ! r = h ! r"
  proof (rule nth_equalityI)
    show "length (g ! r) = length (h ! r)" using assms r rr by (simp add: wf_grid_def)
  next
    fix c assume "c < length (g ! r)"
    then have "c < COLS" using assms r by (simp add: wf_grid_def)
    then show "g ! r ! c = h ! r ! c" using assms(3) rr by simp
  qed
qed

lemma defined_wf: "wf_grid g \<Longrightarrow> defined g (r, c) \<longleftrightarrow> inBounds r c"
  by (auto simp: defined_def inBounds_def wf_grid_def)

lemma wf_grid_swapData: "wf_grid g \<Longrightarrow> wf_grid (swapData a b g)"
  by (simp add: swapData_def Let_def wf_grid_tset)

lemma nth_swapData:
  assumes "wf_grid g" and "r < ROWS" and "c < COLS"
  shows "swapData a b g ! r ! c = (if b = (r, c) then tget g a else if a = (r, c) then tget g b else g ! r ! c)"
  using assms by (simp add: swapData_def Let_def nth_tset wf_grid_tset)

lemma tget_swapData:
  assumes "wf_grid g" and "inBounds (fst p) (snd p)"
  shows "tget (swapData a b g) p = (if b = p then tget g a else if a = p then tget g b else tget g p)"
  using nth_swapData[OF assms(1), of "fst p" "snd p" a b] assms(2)
  by (simp add: tget_def inBounds_def)

lemma swapData_swapData:
  assumes wf: "wf_grid g" and a: "inBounds (fst a) (snd a)" and b: "inBounds (fst b) (snd b)"
  shows "swapData a b (swapData a b g) = g"
proof (rule grid_eqI)
  show "wf_grid (swapData a b (swapData a b g))" using wf by (simp add: wf_grid_swapData)
  show "wf_grid g" by (rule wf)
next
  fix r c assume rc: "r < ROWS" "c < COLS"
  then have p: "inBounds (fst (r, c)) (snd (r, c))" by (simp add: inBounds_def)
  have "tget (swapData a b (swapData a b g)) (r, c) = tget g (r, c)"
    using wf a b p by (simp add: tget_swapData wf_grid_swapData)
  then show "swapData a b (swapData a b g) ! r ! c = g ! r ! c" by (simp add: tget_def)
qed

lemma match_free_iff: "match_free g \<longleftrightarrow> findAllMatches g = []"
  using findAllMatches_set[of g] by (auto simp: match_free_def simp flip: set_empty)

lemma quiet_grid_wf: "wf_grid quiet_grid"
  by (simp add: wf_grid_def quiet_grid_def ROWS_def COLS_def)

lemma quiet_swap_no_match: "findAllMatches (swapData (0, 0) (0, 1) quiet_grid) = []"
  by code_simp

text \<open>
  Claim C1. For two cells inside the grid (in particular two adjacent ones), when the grid
  with their types swapped has no run of length at least \<open>MATCH_MIN\<close>, \<open>attemptSwap\<close> returns
  with the swap reverted: the state it returns is the state before the call, up to the
  selection, which is cleared, and the \<open>processing\<close> flag, which is off. So the type of every
  slot, the score and the moves counter are what they were.
\<close>

theorem attemptSwap_rejected:
  assumes "wf_grid (grid st)" and "inBounds r1 c1" and "inBounds r2 c2"
    and "match_free (swapData (r1, c1) (r2, c2) (grid st))"
  shows "attemptSwap st r1 c1 r2 c2 = Some (Inr (st\<lparr>selected := None, processing := False\<rparr>))"
proof -
  have d: "defined (grid st) (r1, c1)" "defined (grid st) (r2, c2)"
    using assms by (simp_all add: defined_wf)
  have m: "findAllMatches (swapData (r1, c1) (r2, c2) (grid st)) = []"
    using assms(4) by (simp add: match_free_iff)
  have "swapData (r1, c1) (r2, c2) (swapData (r1, c1) (r2, c2) (grid st)) = grid st"
    using assms by (simp add: swapData_swapData)
  then show ?thesis using d m by (simp add: attemptSwap_def Let_def deselect_def)
qed

theorem attemptSwap_rejected_witness:
  "wf_grid (grid quiet_state) \<and> inBounds 0 0 \<and> inBounds 0 1 \<and> isAdjacent 0 0 0 1 \<and>
   match_free (swapData (0, 0) (0, 1) (grid quiet_state)) \<and>
   attemptSwap quiet_state 0 0 0 1 = Some (Inr (quiet_state\<lparr>selected := None, processing := False\<rparr>)) \<and>
   grid (quiet_state\<lparr>selected := None, processing := False\<rparr>) = quiet_grid \<and>
   score (quiet_state\<lparr>selected := None, processing := False\<rparr>) = 120 \<and>
   moves (quiet_state\<lparr>selected := None, processing := False\<rparr>) = 17"
proof -
  have g: "grid quiet_state = quiet_grid" by (simp add: quiet_state_def)
  have w: "wf_grid (grid quiet_state)" using quiet_grid_wf by (simp add: g)
  have b: "inBounds 0 0" "inBounds 0 1" by (simp_all add: inBounds_def ROWS_def COLS_def)
  have m: "match_free (swapData (0, 0) (0, 1) (grid quiet_state))"
    using quiet_swap_no_match by (simp add: g match_free_iff)
  from attemptSwap_rejected [OF w b m] w b m show ?thesis
    by (simp add: isAdjacent_def quiet_state_def)
qed

section \<open>Seeding: the sweep terminates\<close>





































section \<open>Seeding: the constrained draw\<close>

lemma slot_at_Tile: "slot_at b r c = Tile x \<Longrightarrow> r < length b"
  by (simp add: slot_at_def split: if_splits)

lemma randomTypeSafe_loop_result:
  "randomTypeSafe_loop b r c tries rg = Inr (t, rg') \<Longrightarrow> tries \<le> 16 \<Longrightarrow>
     t < TYPES \<and> rnd rg' = rnd rg \<and> rpos rg < rpos rg' \<and> rpos rg' + tries \<le> rpos rg + 17 \<and>
     (rpos rg' + tries \<le> rpos rg + 16 \<longrightarrow> \<not> completes_left b r c t \<and> \<not> completes_up b r c t)"
proof (induction b r c tries rg rule: randomTypeSafe_loop.induct)
  case (1 b r c tries rg)
  let ?t = "rnd rg (rpos rg) mod TYPES"
  let ?rg = "rg\<lparr>rpos := rpos rg + 1\<rparr>"
  have rand: "rand TYPES rg = (?t, ?rg)" by (simp add: rand_def)
  have tlt: "?t < TYPES" by (simp add: TYPES_def)
  show ?case
  proof (cases "tries > 15")
    case True
    with "1.prems" rand have "t = ?t" "rg' = ?rg"
      by (simp_all add: randomTypeSafe_loop.simps[of b r c tries rg])
    with True "1.prems"(2) tlt show ?thesis by simp
  next
    case False
    let ?L = "2 \<le> c \<and> r < length b \<and> slot_at b r (c - 1) \<noteq> Null \<and> slot_at b r (c - 2) \<noteq> Null \<and>
         slot_at b r (c - 1) = Tile (Some ?t) \<and> slot_at b r (c - 2) = Tile (Some ?t)"
    let ?U = "2 \<le> r \<and> r - 1 < length b \<and> r - 2 < length b"
    have L: "?L \<longleftrightarrow> completes_left b r c ?t"
      using slot_at_Tile[of b r "c - 1" "Some ?t"] by (auto simp: completes_left_def)
    have U: "completes_up b r c ?t \<Longrightarrow> ?U"
      using slot_at_Tile[of b "r - 1" c "Some ?t"] slot_at_Tile[of b "r - 2" c "Some ?t"]
      by (auto simp: completes_up_def)
    have direct: ?thesis if "t = ?t" "rg' = ?rg" "\<not> completes_left b r c ?t" "\<not> completes_up b r c ?t"
      using that tlt "1.prems"(2) by simp
    have rec: ?thesis if r: "randomTypeSafe_loop b r c (tries + 1) ?rg = Inr (t, rg')"
      and ih: "randomTypeSafe_loop b r c (tries + 1) ?rg = Inr (t, rg') \<Longrightarrow> tries + 1 \<le> 16 \<Longrightarrow>
        t < TYPES \<and> rnd rg' = rnd ?rg \<and> rpos ?rg < rpos rg' \<and> rpos rg' + (tries + 1) \<le> rpos ?rg + 17 \<and>
        (rpos rg' + (tries + 1) \<le> rpos ?rg + 16 \<longrightarrow> \<not> completes_left b r c t \<and> \<not> completes_up b r c t)"
    proof -
      have "tries + 1 \<le> 16" using False by simp
      from ih[OF r this] show ?thesis by simp
    qed
    have unfold: "randomTypeSafe_loop b r c tries rg =
       (if ?L then randomTypeSafe_loop b r c (tries + 1) ?rg
        else if ?U then
          (case slot_at b (r - 1) c of
             Null \<Rightarrow> Inl TypeError
           | Tile t1 \<Rightarrow>
               if t1 = Some ?t then
                 (case slot_at b (r - 2) c of
                    Null \<Rightarrow> Inl TypeError
                  | Tile t2 \<Rightarrow> if t2 = Some ?t then randomTypeSafe_loop b r c (tries + 1) ?rg
                               else Inr (?t, ?rg))
               else Inr (?t, ?rg))
        else Inr (?t, ?rg))"
      using False by (subst randomTypeSafe_loop.simps) (simp only: rand Let_def prod.case if_False)
    show ?thesis
    proof (cases ?L)
      case True
      have "randomTypeSafe_loop b r c tries rg = randomTypeSafe_loop b r c (tries + 1) ?rg"
        unfolding unfold by (simp only: if_P[OF True])
      then have r: "randomTypeSafe_loop b r c (tries + 1) ?rg = Inr (t, rg')"
        using "1.prems"(1) by (simp only:)
      show ?thesis by (rule rec[OF r]) (rule "1.IH"(1)[OF rand[symmetric] refl False True])
    next
      case nL: False
      then have ncl: "\<not> completes_left b r c ?t" using L by blast
      show ?thesis
      proof (cases ?U)
        case False
        have "randomTypeSafe_loop b r c tries rg = Inr (?t, ?rg)"
          unfolding unfold by (simp only: if_not_P[OF nL] if_not_P[OF False])
        then have "t = ?t" "rg' = ?rg" using "1.prems"(1) by (simp_all del: randomTypeSafe_loop.simps)
        moreover have "\<not> completes_up b r c ?t" using U False by blast
        ultimately show ?thesis using ncl by (intro direct)
      next
        case yU: True
        show ?thesis
        proof (cases "slot_at b (r - 1) c")
          case Null
          have "randomTypeSafe_loop b r c tries rg = Inl TypeError"
            unfolding unfold by (simp only: if_not_P[OF nL] if_P[OF yU] Null slot.case)
          then show ?thesis using "1.prems"(1) by (simp del: randomTypeSafe_loop.simps)
        next
          case t1: (Tile t1)
          show ?thesis
          proof (cases "t1 = Some ?t")
            case False
            have "randomTypeSafe_loop b r c tries rg = Inr (?t, ?rg)"
              unfolding unfold by (simp only: if_not_P[OF nL] if_P[OF yU] t1 slot.case if_not_P[OF False])
            then have "t = ?t" "rg' = ?rg" using "1.prems"(1) by (simp_all del: randomTypeSafe_loop.simps)
            moreover have "\<not> completes_up b r c ?t" using t1 False by (simp add: completes_up_def)
            ultimately show ?thesis using ncl by (intro direct)
          next
            case e1: True
            show ?thesis
            proof (cases "slot_at b (r - 2) c")
              case Null
              have "randomTypeSafe_loop b r c tries rg = Inl TypeError"
                unfolding unfold by (simp only: if_not_P[OF nL] if_P[OF yU] t1 slot.case if_P[OF e1] Null)
              then show ?thesis using "1.prems"(1) by (simp del: randomTypeSafe_loop.simps)
            next
              case t2: (Tile t2)
              show ?thesis
              proof (cases "t2 = Some ?t")
                case False
                have "randomTypeSafe_loop b r c tries rg = Inr (?t, ?rg)"
                  unfolding unfold
                  by (simp only: if_not_P[OF nL] if_P[OF yU] t1 slot.case if_P[OF e1] t2 if_not_P[OF False])
                then have "t = ?t" "rg' = ?rg" using "1.prems"(1)
                  by (simp_all del: randomTypeSafe_loop.simps)
                moreover have "\<not> completes_up b r c ?t" using t2 False by (simp add: completes_up_def)
                ultimately show ?thesis using ncl by (intro direct)
              next
                case e2: True
                have "randomTypeSafe_loop b r c tries rg = randomTypeSafe_loop b r c (tries + 1) ?rg"
                  unfolding unfold
                  by (simp only: if_not_P[OF nL] if_P[OF yU] t1 slot.case if_P[OF e1] t2 if_P[OF e2])
                then have r: "randomTypeSafe_loop b r c (tries + 1) ?rg = Inr (t, rg')"
                  using "1.prems"(1) by (simp only:)
                show ?thesis
                  by (rule rec[OF r])
                    (rule "1.IH"(2)[OF rand[symmetric] refl \<open>\<not> 15 < tries\<close> nL yU t1 e1 t2 e2])
              qed
            qed
          qed
        qed
      qed
    qed
  qed
qed

lemma randomTypeSafe_loop_returns:
  assumes up: "2 \<le> r \<longrightarrow> slot_at b (r - 1) c \<noteq> Null \<and> slot_at b (r - 2) c \<noteq> Null"
  shows "\<exists>t rg'. randomTypeSafe_loop b r c tries rg = Inr (t, rg')"
  using up
proof (induction b r c tries rg rule: randomTypeSafe_loop.induct)
  case (1 b r c tries rg)
  let ?t = "rnd rg (rpos rg) mod TYPES"
  let ?rg = "rg\<lparr>rpos := rpos rg + 1\<rparr>"
  let ?L = "2 \<le> c \<and> r < length b \<and> slot_at b r (c - 1) \<noteq> Null \<and> slot_at b r (c - 2) \<noteq> Null \<and>
       slot_at b r (c - 1) = Tile (Some ?t) \<and> slot_at b r (c - 2) = Tile (Some ?t)"
  let ?U = "2 \<le> r \<and> r - 1 < length b \<and> r - 2 < length b"
  have rand: "rand TYPES rg = (?t, ?rg)" by (simp add: rand_def)
  show ?case
  proof (cases "tries > 15")
    case True
    have "randomTypeSafe_loop b r c tries rg = Inr (?t, ?rg)"
      by (subst randomTypeSafe_loop.simps) (simp only: rand Let_def prod.case if_P[OF True])
    then show ?thesis by blast
  next
    case False
    have unfold: "randomTypeSafe_loop b r c tries rg =
       (if ?L then randomTypeSafe_loop b r c (tries + 1) ?rg
        else if ?U then
          (case slot_at b (r - 1) c of
             Null \<Rightarrow> Inl TypeError
           | Tile t1 \<Rightarrow>
               if t1 = Some ?t then
                 (case slot_at b (r - 2) c of
                    Null \<Rightarrow> Inl TypeError
                  | Tile t2 \<Rightarrow> if t2 = Some ?t then randomTypeSafe_loop b r c (tries + 1) ?rg
                               else Inr (?t, ?rg))
               else Inr (?t, ?rg))
        else Inr (?t, ?rg))"
      using False by (subst randomTypeSafe_loop.simps) (simp only: rand Let_def prod.case if_False)
    show ?thesis
    proof (cases ?L)
      case True
      have "randomTypeSafe_loop b r c tries rg = randomTypeSafe_loop b r c (tries + 1) ?rg"
        unfolding unfold by (simp only: if_P[OF True])
      then show ?thesis using "1.IH"(1)[OF rand[symmetric] refl False True "1.prems"] by (simp only:)
    next
      case nL: False
      show ?thesis
      proof (cases ?U)
        case False
        have "randomTypeSafe_loop b r c tries rg = Inr (?t, ?rg)"
          unfolding unfold by (simp only: if_not_P[OF nL] if_not_P[OF False])
        then show ?thesis by blast
      next
        case yU: True
        then obtain t1 t2 where t1: "slot_at b (r - 1) c = Tile t1" and t2: "slot_at b (r - 2) c = Tile t2"
          using "1.prems" by (cases "slot_at b (r - 1) c"; cases "slot_at b (r - 2) c") simp_all
        show ?thesis
        proof (cases "t1 = Some ?t")
          case False
          have "randomTypeSafe_loop b r c tries rg = Inr (?t, ?rg)"
            unfolding unfold by (simp only: if_not_P[OF nL] if_P[OF yU] t1 slot.case if_not_P[OF False])
          then show ?thesis by blast
        next
          case e1: True
          show ?thesis
          proof (cases "t2 = Some ?t")
            case False
            have "randomTypeSafe_loop b r c tries rg = Inr (?t, ?rg)"
              unfolding unfold
              by (simp only: if_not_P[OF nL] if_P[OF yU] t1 slot.case if_P[OF e1] t2 if_not_P[OF False])
            then show ?thesis by blast
          next
            case e2: True
            have "randomTypeSafe_loop b r c tries rg = randomTypeSafe_loop b r c (tries + 1) ?rg"
              unfolding unfold
              by (simp only: if_not_P[OF nL] if_P[OF yU] t1 slot.case if_P[OF e1] t2 if_P[OF e2])
            then show ?thesis
              using "1.IH"(2)[OF rand[symmetric] refl False nL yU t1 e1 t2 e2 "1.prems"] by (simp only:)
          qed
        qed
      qed
    qed
  qed
qed

lemma late_draw: "type_and_draws (randomTypeSafe seed_board 2 2 late_rng) = Some (0, 16)"
  by code_simp

lemma stuck_draw: "type_and_draws (randomTypeSafe seed_board 2 2 stuck_rng) = Some (1, 17)"
  by code_simp

text \<open>
  Claim C9, as the code has it. Whenever \<open>randomTypeSafe\<close> returns a type, the type is in
  \<open>[0, TYPES)\<close> and at most 17 draws were made; when at most 16 draws were made, that is,
  when fewer than 16 draws were rejected, the type completes no run of three with the two
  tiles to the left nor with the two tiles above. After the 16th rejection the 17th draw is
  returned unchecked. A type is returned whenever the two slots above hold tiles, as they
  do while \<open>init\<close> fills the grid row by row (a null slot there would make the read of its
  type throw).
\<close>

theorem randomTypeSafe_result:
  "(randomTypeSafe b r c rg = Inr (t, rg') \<longrightarrow>
      t < TYPES \<and> rpos rg < rpos rg' \<and> rpos rg' \<le> rpos rg + 17 \<and>
      (rpos rg' \<le> rpos rg + 16 \<longrightarrow> \<not> completes_left b r c t \<and> \<not> completes_up b r c t)) \<and>
   ((2 \<le> r \<longrightarrow> slot_at b (r - 1) c \<noteq> Null \<and> slot_at b (r - 2) c \<noteq> Null) \<longrightarrow>
      (\<exists>t rg'. randomTypeSafe b r c rg = Inr (t, rg')))"
  using randomTypeSafe_loop_result[of b r c 0 rg t rg'] randomTypeSafe_loop_returns[of r b c 0 rg]
  by (simp add: randomTypeSafe_def)

theorem randomTypeSafe_result_witness:
  "slot_at seed_board (2 - 1) 2 \<noteq> Null \<and> slot_at seed_board (2 - 2) 2 \<noteq> Null \<and>
   (\<exists>rg'. randomTypeSafe seed_board 2 2 late_rng = Inr (0, rg') \<and> rpos rg' = 16 \<and>
     rpos rg' \<le> rpos late_rng + 16 \<and>
     \<not> completes_left seed_board 2 2 0 \<and> \<not> completes_up seed_board 2 2 0)"
proof -
  have u: "slot_at seed_board (2 - 1) 2 \<noteq> Null \<and> slot_at seed_board (2 - 2) 2 \<noteq> Null"
    by (simp add: slot_at_def seed_board_def)
  from late_draw obtain rg' where r: "randomTypeSafe seed_board 2 2 late_rng = Inr (0, rg')"
    and p: "rpos rg' = 16"
    by (auto simp: type_and_draws_def split: sum.splits)
  have "rpos late_rng = 0" by (simp add: late_rng_def)
  with randomTypeSafe_result [of seed_board 2 2 late_rng 0 rg'] r p u show ?thesis by simp
qed

text \<open>
  The claim as stated fails when exactly 16 draws are rejected, which is not more than 16:
  with a source that always draws 1 and two tiles of type 1 to the left, the 17th draw is
  returned, and it is 1.
\<close>

theorem randomTypeSafe_sixteen_rejections:
  "type_and_draws (randomTypeSafe seed_board 2 2 stuck_rng) = Some (1, 17) \<and>
   rpos stuck_rng = 0 \<and> completes_left seed_board 2 2 1"
  using stuck_draw by (simp add: stuck_rng_def completes_left_def seed_board_def slot_at_def)

section \<open>End conditions\<close>

text \<open>
  Claim C8. End-condition evaluation shows the winning overlay whenever the score has reached
  2000, whatever the moves counter is (so also when the moves are exhausted at the same time);
  it shows the losing overlay when the score is below 2000 and no move is left; otherwise it
  changes nothing, so a session that was playing goes on playing.
\<close>

theorem checkEndConditions_outcome:
  "(score st \<ge> 2000 \<longrightarrow> status (checkEndConditions st) = Won) \<and>
   (score st < 2000 \<and> moves st \<le> 0 \<longrightarrow> status (checkEndConditions st) = Lost) \<and>
   (score st < 2000 \<and> moves st > 0 \<longrightarrow> checkEndConditions st = st)"
  by (simp add: checkEndConditions_def showOverlay_def status_def)

theorem checkEndConditions_outcome_witness:
  "status (checkEndConditions (example_state\<lparr>score := 2000, moves := 0\<rparr>)) = Won \<and>
   status (checkEndConditions (example_state\<lparr>score := 1990, moves := 0\<rparr>)) = Lost \<and>
   status (checkEndConditions (example_state\<lparr>score := 1990, moves := 1\<rparr>)) = Playing"
  using checkEndConditions_outcome [of "example_state\<lparr>score := 2000, moves := 0\<rparr>"]
    checkEndConditions_outcome [of "example_state\<lparr>score := 1990, moves := 0\<rparr>"]
    checkEndConditions_outcome [of "example_state\<lparr>score := 1990, moves := 1\<rparr>"]
  by (simp add: status_def example_state_def)

end
